theory Spec2Isabelle
  imports Complex_Main
begin

section \<open>Data model\<close>

text \<open>
  The command \<^verbatim>\<open>classify\<close> of \<^verbatim>\<open>classifier/commands/classify.py\<close> reads ads from a
  database, scores each one with the classifier of its language and writes the scores
  back in batches. Exceptions are values: the command itself raises nothing, every
  exception comes out of a subscript or out of a collaborator, and it propagates.
\<close>

datatype error = IndexError | KeyError | Failure string

text \<open>A row of the table \<^verbatim>\<open>ads\<close>, with the four columns the command reads or writes.\<close>

record ad =
  ad_id :: nat
  lang :: string
  html :: string
  political_probability :: real

text \<open>
  A row of a query result: either a row of \<^verbatim>\<open>ads\<close>, or the single row of the count
  query, whose only column is \<^verbatim>\<open>length\<close>. A subscript with a column the row does not
  have raises \<^verbatim>\<open>KeyError\<close>.
\<close>

datatype row = Ad ad | Length nat

text \<open>The dictionary \<^verbatim>\<open>{"id": ..., "probability": ...}\<close> built for each scored record.\<close>

record score_update =
  upd_id :: nat
  probability :: real

text \<open>A configuration is a dictionary; the command reads its key \<^verbatim>\<open>language\<close> only.\<close>

type_synonym conf = "string \<rightharpoonup> string"

text \<open>
  The dictionary \<^verbatim>\<open>{"classifier": ..., "vectorizer": ...}\<close> stored per language. Each of
  the two objects is used through one method only (\<^verbatim>\<open>predict_proba\<close>, \<^verbatim>\<open>transform\<close>) and is
  identified with it; \<open>'f\<close> is the type of feature matrices.
\<close>

record 'f classifier_bundle =
  classifier :: "'f \<Rightarrow> real list list"
  vectorizer :: "string list \<Rightarrow> 'f"

text \<open>
  What the command does to the outside world, in the order it does it: the lines it
  prints, the statements it sends to the database, the files it opens. An event is
  recorded when the call is made, so a call that raises is the last event of its run.
\<close>

datatype event =
    Print string
  | Print_found nat
  | Print_classified nat nat nat real
  | Query string
  | Open_file string
  | Bulk_query string "score_update list"

text \<open>
  The names imported from \<^verbatim>\<open>classifier.utilities\<close> and \<^verbatim>\<open>dill\<close> are parameters of the model.
  \<open>dill_load\<close> stands for opening the file at a path and unpickling it.
\<close>

record 'f utilities =
  confs :: "string \<Rightarrow> (string \<times> conf) list"
  classifier_path :: "string \<Rightarrow> string"
  dill_load :: "string \<Rightarrow> error + ('f \<Rightarrow> real list list)"
  get_vectorizer :: "conf \<Rightarrow> error + (string list \<Rightarrow> 'f)"
  get_text :: "string \<Rightarrow> string"

text \<open>
  The object \<^verbatim>\<open>DB\<close>, over any type \<open>'s\<close> of database contents. A read returns rows or
  raises; a bulk write returns the new contents or raises, and a write that raises
  leaves the contents as they were.
\<close>

record 's database =
  query :: "string \<Rightarrow> 's \<Rightarrow> error + row list"
  bulk_query :: "string \<Rightarrow> score_update list \<Rightarrow> 's \<Rightarrow> error + 's"

text \<open>The local variables of \<^verbatim>\<open>classify\<close>, the database contents and the events so far.\<close>

record ('f, 's) state =
  store :: 's
  trace :: "event list"
  classifiers :: "string \<rightharpoonup> 'f classifier_bundle"
  length' :: nat
  updates :: "score_update list"
  idx :: nat

type_synonym ('f, 's) result = "(error \<times> ('f, 's) state) + ('f, 's) state"

definition emit :: "event \<Rightarrow> ('f, 's) state \<Rightarrow> ('f, 's) state" where
  "emit ev st = st\<lparr>trace := trace st @ [ev]\<rparr>"

section \<open>The command\<close>

subsection \<open>The statements sent to the database\<close>

definition sq :: string where
  "sq = [CHR 0x27]"

text \<open>
  Lines 18 to 27. The option \<^verbatim>\<open>--lang\<close> is \<^verbatim>\<open>None\<close> when it is not given; \<^verbatim>\<open>if lang:\<close> is
  false for \<^verbatim>\<open>None\<close> and for the empty string.
\<close>

definition select_query :: "bool \<Rightarrow> string option \<Rightarrow> string" where
  "select_query newest lang_opt =
     (if newest then
        (let query = ''select * from ads where political_probability = 0'' in
         case lang_opt of
           None \<Rightarrow> query
         | Some l \<Rightarrow> if l \<noteq> [] then query @ '' and lang = '' @ sq @ l @ sq else query)
      else
        (let query = ''select * from ads'' in
         case lang_opt of
           None \<Rightarrow> query
         | Some l \<Rightarrow> if l \<noteq> [] then query @ '' where lang = '' @ sq @ l @ sq else query))"

definition mode_line :: "bool \<Rightarrow> string" where
  "mode_line newest = (if newest then ''Running newest'' else ''Running every'')"

definition count_query :: "string \<Rightarrow> string" where
  "count_query q = ''select count(*) as length from ('' @ q @ '') as t1;''"

definition update_query :: string where
  "update_query = ''update ads set political_probability=:probability where id=:id''"

subsection \<open>Subscripts\<close>

text \<open>\<^verbatim>\<open>xs[i]\<close> for a non-negative constant \<open>i\<close>.\<close>

definition item :: "'a list \<Rightarrow> nat \<Rightarrow> error + 'a" where
  "item xs i = (if i < length xs then Inr (xs ! i) else Inl IndexError)"

text \<open>\<^verbatim>\<open>rows[0]["length"]\<close>, line 29.\<close>

definition first_length :: "row list \<Rightarrow> error + nat" where
  "first_length rows =
     (case item rows 0 of
        Inl e \<Rightarrow> Inl e
      | Inr r \<Rightarrow> (case r of Length n \<Rightarrow> Inr n | Ad a \<Rightarrow> Inl KeyError))"

subsection \<open>Lines 29 and 30: the count and the records\<close>

definition run_queries ::
  "'s database \<Rightarrow> string \<Rightarrow> ('f, 's) state \<Rightarrow> (error \<times> ('f, 's) state) + (row list \<times> ('f, 's) state)"
where
  "run_queries DB q st =
     (let st = emit (Query (count_query q)) st in
      case query DB (count_query q) (store st) of
        Inl e \<Rightarrow> Inl (e, st)
      | Inr rows \<Rightarrow>
          (case first_length rows of
             Inl e \<Rightarrow> Inl (e, st)
           | Inr n \<Rightarrow>
               (let st = st\<lparr>length' := n\<rparr>;
                    st = emit (Query q) st in
                case query DB q (store st) of
                  Inl e \<Rightarrow> Inl (e, st)
                | Inr records \<Rightarrow> Inr (records, st))))"

subsection \<open>Lines 31 to 37: the classifiers\<close>

fun load_classifiers ::
  "'f utilities \<Rightarrow> (string \<times> conf) list \<Rightarrow> ('f, 's) state \<Rightarrow> ('f, 's) result"
where
  "load_classifiers U [] st = Inr st"
| "load_classifiers U ((directory, conf) # rest) st =
     (let st = emit (Open_file (classifier_path U directory)) st in
      case dill_load U (classifier_path U directory) of
        Inl e \<Rightarrow> Inl (e, st)
      | Inr c \<Rightarrow>
          (case get_vectorizer U conf of
             Inl e \<Rightarrow> Inl (e, st)
           | Inr v \<Rightarrow>
               (case conf ''language'' of
                  None \<Rightarrow> Inl (KeyError, st)
                | Some l \<Rightarrow>
                    load_classifiers U rest
                      (st\<lparr>classifiers :=
                          (classifiers st)(l \<mapsto> \<lparr>classifier = c, vectorizer = v\<rparr>)\<rparr>))))"

subsection \<open>Lines 43 to 59: one record\<close>

text \<open>Lines 46 to 50: the update of a record whose language has a classifier.\<close>

definition score :: "'f utilities \<Rightarrow> 'f classifier_bundle \<Rightarrow> ad \<Rightarrow> error + score_update" where
  "score U b record =
     (let text = vectorizer b [get_text U (html record)] in
      case item (classifier b text) 0 of
        Inl e \<Rightarrow> Inl e
      | Inr r \<Rightarrow>
          (case item r 1 of
             Inl e \<Rightarrow> Inl e
           | Inr p \<Rightarrow> Inr \<lparr>upd_id = ad_id record, probability = p\<rparr>))"

text \<open>\<^verbatim>\<open>DB.bulk_query(query, updates)\<close>, lines 58 and 62.\<close>

definition bulk_write :: "'s database \<Rightarrow> ('f, 's) state \<Rightarrow> ('f, 's) result" where
  "bulk_write DB st =
     (let st = emit (Bulk_query update_query (updates st)) st in
      case bulk_query DB update_query (updates st) (store st) of
        Inl e \<Rightarrow> Inl (e, st)
      | Inr s \<Rightarrow> Inr (st\<lparr>store := s\<rparr>))"

text \<open>Lines 51 to 59: append, print, and write when the buffer has 100 updates.\<close>

definition buffer :: "'s database \<Rightarrow> score_update \<Rightarrow> ('f, 's) state \<Rightarrow> ('f, 's) result" where
  "buffer DB update st =
     (let st = st\<lparr>updates := updates st @ [update]\<rparr>;
          st = emit (Print_classified (upd_id update) (idx st) (length' st)
                       (probability update)) st in
      if 100 \<le> length (updates st) then
        (case bulk_write DB st of
           Inl x \<Rightarrow> Inl x
         | Inr st \<Rightarrow> Inr (st\<lparr>updates := []\<rparr>))
      else Inr st)"

definition body ::
  "'f utilities \<Rightarrow> 's database \<Rightarrow> row \<Rightarrow> ('f, 's) state \<Rightarrow> ('f, 's) result"
where
  "body U DB record st =
     (let st = st\<lparr>idx := idx st + 1\<rparr> in
      case record of
        Length n \<Rightarrow> Inl (KeyError, st)
      | Ad a \<Rightarrow>
          (case classifiers st (lang a) of
             None \<Rightarrow> Inr st
           | Some b \<Rightarrow>
               (case score U b a of
                  Inl e \<Rightarrow> Inl (e, st)
                | Inr update \<Rightarrow> buffer DB update st)))"

subsection \<open>Lines 43 to 62: the loop and the last write\<close>

fun loop ::
  "'f utilities \<Rightarrow> 's database \<Rightarrow> row list \<Rightarrow> ('f, 's) state \<Rightarrow> ('f, 's) result"
where
  "loop U DB [] st = Inr st"
| "loop U DB (record # records) st =
     (case body U DB record st of
        Inl x \<Rightarrow> Inl x
      | Inr st' \<Rightarrow> loop U DB records st')"

definition flush :: "'s database \<Rightarrow> ('f, 's) state \<Rightarrow> ('f, 's) result" where
  "flush DB st = (if updates st \<noteq> [] then bulk_write DB st else Inr st)"

subsection \<open>The whole command\<close>

definition init :: "'s \<Rightarrow> ('f, 's) state" where
  "init s = \<lparr>store = s, trace = [], classifiers = Map.empty, length' = 0,
             updates = [], idx = 0\<rparr>"

definition classify ::
  "'f utilities \<Rightarrow> 's database \<Rightarrow> string \<Rightarrow> bool \<Rightarrow> string option \<Rightarrow> 's \<Rightarrow> ('f, 's) result"
where
  "classify U DB base newest lang_opt s =
     (let st = emit (Print (mode_line newest)) (init s) in
      case run_queries DB (select_query newest lang_opt) st of
        Inl x \<Rightarrow> Inl x
      | Inr (records, st) \<Rightarrow>
          (case load_classifiers U (confs U base) (st\<lparr>classifiers := Map.empty\<rparr>) of
             Inl x \<Rightarrow> Inl x
           | Inr st \<Rightarrow>
               (let st = emit (Print_found (length' st)) st;
                    st = st\<lparr>updates := [], idx := 0\<rparr> in
                case loop U DB records st of
                  Inl x \<Rightarrow> Inl x
                | Inr st \<Rightarrow> flush DB st)))"

section \<open>The database\<close>

text \<open>
  Modelled from the spec: the object \<^verbatim>\<open>DB\<close> of \<^verbatim>\<open>classifier.utilities\<close>, which is not
  among the sources. Section 6 of the specification gives it two operations: a read,
  which answers "records matching predicate" and "count of records matching predicate"
  for the predicates unscored-only or all, each optionally "and/where language = L";
  and a bulk update of probabilities by id, which commits all of a call or none of it.
  The contents are the rows of \<^verbatim>\<open>ads\<close>. A statement is read as SQL text: a string
  literal ends at the first quote that is not doubled, a doubled quote inside a literal
  stands for one quote, and conditions are joined by \<^verbatim>\<open>and\<close> and by \<^verbatim>\<open>or\<close>, of which
  \<^verbatim>\<open>and\<close> binds more tightly. Any other text is refused.
\<close>

text \<open>The conditions of a \<^verbatim>\<open>where\<close> clause.\<close>

datatype cond = Unscored | Lang_is string

text \<open>The text after a prefix, and the text before a suffix.\<close>

fun strip_prefix :: "string \<Rightarrow> string \<Rightarrow> string option" where
  "strip_prefix [] s = Some s"
| "strip_prefix (p # ps) [] = None"
| "strip_prefix (p # ps) (c # cs) = (if p = c then strip_prefix ps cs else None)"

definition strip_suffix :: "string \<Rightarrow> string \<Rightarrow> string option" where
  "strip_suffix p s = map_option rev (strip_prefix (rev p) (rev s))"

text \<open>The text after an opening quote: the value of the literal and what follows it.\<close>

fun string_literal :: "string \<Rightarrow> (string \<times> string) option" where
  "string_literal [] = None"
| "string_literal [c] = (if c = CHR 0x27 then Some ([], []) else None)"
| "string_literal (c # d # ds) =
     (if c = CHR 0x27 then
        (if d = CHR 0x27 then map_option (\<lambda>(v, r). (c # v, r)) (string_literal ds)
         else Some ([], d # ds))
      else map_option (\<lambda>(v, r). (c # v, r)) (string_literal (d # ds)))"

text \<open>
  One condition and the text after it: \<^verbatim>\<open>political_probability = 0\<close>, or \<^verbatim>\<open>lang = \<close> and a
  string literal.
\<close>

definition atom :: "string \<Rightarrow> (cond \<times> string) option" where
  "atom s =
     (case strip_prefix ''political_probability = 0'' s of
        Some r \<Rightarrow> Some (Unscored, r)
      | None \<Rightarrow>
          (case strip_prefix (''lang = '' @ sq) s of
             None \<Rightarrow> None
           | Some r \<Rightarrow> map_option (\<lambda>(v, r'). (Lang_is v, r')) (string_literal r)))"

text \<open>Each of them consumes text, which is why reading a list of conditions ends.\<close>

lemma strip_prefix_length: "strip_prefix p s = Some r \<Longrightarrow> length s = length p + length r"
  by (induction p s rule: strip_prefix.induct) (auto split: if_splits)

lemma string_literal_length: "string_literal s = Some (v, r) \<Longrightarrow> length r < length s"
proof (induction s arbitrary: v r rule: string_literal.induct)
  case 1
  then show ?case by simp
next
  case (2 c)
  then show ?case by (simp split: if_splits)
next
  case (3 c d ds)
  show ?case
  proof (cases "c = CHR 0x27")
    case True
    show ?thesis
    proof (cases "d = CHR 0x27")
      case True
      with \<open>c = CHR 0x27\<close> "3.prems" obtain v' where "string_literal ds = Some (v', r)"
        by auto
      with "3.IH"(1) [OF \<open>c = CHR 0x27\<close> True] show ?thesis by fastforce
    next
      case False
      with \<open>c = CHR 0x27\<close> "3.prems" show ?thesis by auto
    qed
  next
    case False
    with "3.prems" obtain v' where "string_literal (d # ds) = Some (v', r)"
      by auto
    with "3.IH"(2) [OF False] show ?thesis by fastforce
  qed
qed

lemma atom_length: "atom s = Some (c, r) \<Longrightarrow> length r < length s"
  by (auto simp: atom_def sq_def split: option.splits
           dest!: strip_prefix_length string_literal_length)

text \<open>
  One or more conditions joined by \<^verbatim>\<open>and\<close> and \<^verbatim>\<open>or\<close>. Since \<^verbatim>\<open>and\<close> binds more tightly, a
  clause is a list of alternatives, and an alternative is a list of conditions:
  \<^verbatim>\<open>a and b or c\<close> is read as \<open>[[a, b], [c]]\<close>.
\<close>

definition and_cond :: "cond \<Rightarrow> cond list list \<Rightarrow> cond list list" where
  "and_cond c ds = (case ds of [] \<Rightarrow> [[c]] | d # ds' \<Rightarrow> (c # d) # ds')"

function conds :: "string \<Rightarrow> cond list list option" where
  "conds s =
     (case atom s of
        None \<Rightarrow> None
      | Some (c, r) \<Rightarrow>
          if r = [] then Some [[c]]
          else (case strip_prefix '' and '' r of
                  Some r' \<Rightarrow> map_option (and_cond c) (conds r')
                | None \<Rightarrow>
                    (case strip_prefix '' or '' r of
                       None \<Rightarrow> None
                     | Some r' \<Rightarrow> map_option ((#) [c]) (conds r'))))"
  by pat_completeness auto
termination
  by (relation "measure length") (auto dest!: atom_length strip_prefix_length)

declare conds.simps [simp del]

text \<open>
  The clause of a select statement on \<^verbatim>\<open>ads\<close>: a single alternative with no condition
  when it has no \<^verbatim>\<open>where\<close>.
\<close>

definition select_where :: "string \<Rightarrow> cond list list option" where
  "select_where q =
     (case strip_prefix ''select * from ads'' q of
        None \<Rightarrow> None
      | Some r \<Rightarrow>
          if r = [] then Some [[]]
          else (case strip_prefix '' where '' r of
                  None \<Rightarrow> None
                | Some r' \<Rightarrow> conds r'))"

text \<open>The statement a count statement wraps.\<close>

definition count_inner :: "string \<Rightarrow> string option" where
  "count_inner q =
     (case strip_prefix ''select count(*) as length from ('' q of
        None \<Rightarrow> None
      | Some r \<Rightarrow> strip_suffix '') as t1;'' r)"

text \<open>
  A row is selected when it satisfies every condition of some alternative. The rows
  selected are in the order of the table.
\<close>

fun sat :: "cond \<Rightarrow> ad \<Rightarrow> bool" where
  "sat Unscored a = (political_probability a = 0)"
| "sat (Lang_is l) a = (lang a = l)"

definition selects :: "cond list list \<Rightarrow> ad \<Rightarrow> bool" where
  "selects ds a = (\<exists>cs \<in> set ds. \<forall>c \<in> set cs. sat c a)"

definition matching :: "cond list list \<Rightarrow> ad list \<Rightarrow> ad list" where
  "matching ds tbl = filter (selects ds) tbl"

text \<open>\<^verbatim>\<open>DB.query\<close>: the count as a single row, or the rows selected.\<close>

definition sql_query :: "string \<Rightarrow> ad list \<Rightarrow> error + row list" where
  "sql_query q tbl =
     (case count_inner q of
        Some inner \<Rightarrow>
          (case select_where inner of
             None \<Rightarrow> Inl (Failure ''syntax error'')
           | Some cs \<Rightarrow> Inr [Length (length (matching cs tbl))])
      | None \<Rightarrow>
          (case select_where q of
             None \<Rightarrow> Inl (Failure ''syntax error'')
           | Some cs \<Rightarrow> Inr (map Ad (matching cs tbl))))"

text \<open>
  \<^verbatim>\<open>DB.bulk_query\<close>: the update statement of line 41, run once for each update of the list,
  in order; each sets the probability of the rows with that id.
\<close>

definition apply_update :: "score_update \<Rightarrow> ad list \<Rightarrow> ad list" where
  "apply_update u tbl =
     map (\<lambda>a. if ad_id a = upd_id u then a\<lparr>political_probability := probability u\<rparr> else a) tbl"

definition sql_bulk_query :: "string \<Rightarrow> score_update list \<Rightarrow> ad list \<Rightarrow> error + ad list" where
  "sql_bulk_query q us tbl =
     (if q = update_query then Inr (fold apply_update us tbl)
      else Inl (Failure ''syntax error''))"

text \<open>
  Modelled from the spec: the storage collaborator, as the object \<^verbatim>\<open>DB\<close> over a table
  of ads.
\<close>

definition sql_db :: "ad list database" where
  "sql_db = \<lparr>query = sql_query, bulk_query = sql_bulk_query\<rparr>"

section \<open>What a run did\<close>

text \<open>The result of a run, or of a part of it: the state it ended in, raised or not.\<close>

definition final :: "('f, 's) result \<Rightarrow> ('f, 's) state" where
  "final out = (case out of Inl (e, st) \<Rightarrow> st | Inr st \<Rightarrow> st)"

text \<open>The update lists of the bulk writes of a trace, in order.\<close>

fun payloads :: "event list \<Rightarrow> score_update list list" where
  "payloads [] = []"
| "payloads (Bulk_query q us # evs) = us # payloads evs"
| "payloads (ev # evs) = payloads evs"

text \<open>The progress lines of a trace: id, index, total and probability.\<close>

fun progress :: "event list \<Rightarrow> (nat \<times> nat \<times> nat \<times> real) list" where
  "progress [] = []"
| "progress (Print_classified i k n p # evs) = (i, k, n, p) # progress evs"
| "progress (ev # evs) = progress evs"

text \<open>The files opened in a trace.\<close>

fun opened :: "event list \<Rightarrow> string list" where
  "opened [] = []"
| "opened (Open_file p # evs) = p # opened evs"
| "opened (ev # evs) = opened evs"

text \<open>A record is scoreable when it is a row of \<^verbatim>\<open>ads\<close> whose language has a classifier.\<close>

definition scoreable :: "(string \<rightharpoonup> 'f classifier_bundle) \<Rightarrow> row \<Rightarrow> bool" where
  "scoreable cls r = (case r of Ad a \<Rightarrow> cls (lang a) \<noteq> None | Length n \<Rightarrow> False)"

text \<open>The updates of the scoreable records of a stream, in the order of the stream.\<close>

fun scored ::
  "'f utilities \<Rightarrow> (string \<rightharpoonup> 'f classifier_bundle) \<Rightarrow> row list \<Rightarrow> score_update list"
where
  "scored U cls [] = []"
| "scored U cls (r # rs) =
     (case r of
        Length n \<Rightarrow> []
      | Ad a \<Rightarrow>
          (case cls (lang a) of
             None \<Rightarrow> []
           | Some b \<Rightarrow> (case score U b a of Inl e \<Rightarrow> [] | Inr u \<Rightarrow> [u]))) @ scored U cls rs"

text \<open>
  The scoreable records of a stream, each with the classifier and vectorizer of its
  language.
\<close>

fun scoreable_ads ::
  "(string \<rightharpoonup> 'f classifier_bundle) \<Rightarrow> row list \<Rightarrow> (ad \<times> 'f classifier_bundle) list"
where
  "scoreable_ads cls [] = []"
| "scoreable_ads cls (Length n # rs) = scoreable_ads cls rs"
| "scoreable_ads cls (Ad a # rs) =
     (case cls (lang a) of
        None \<Rightarrow> scoreable_ads cls rs
      | Some b \<Rightarrow> (a, b) # scoreable_ads cls rs)"

text \<open>What \<^verbatim>\<open>predict_proba\<close> returns for the vectorized text of a record.\<close>

definition proba :: "'f utilities \<Rightarrow> 'f classifier_bundle \<Rightarrow> ad \<Rightarrow> real list list" where
  "proba U b a = classifier b (vectorizer b [get_text U (html a)])"

text \<open>
  The contents of the database after the bulk writes of a trace, from the contents \<open>s\<close>:
  a write that raises leaves them as they are.
\<close>

fun replay :: "'s database \<Rightarrow> 's \<Rightarrow> event list \<Rightarrow> 's" where
  "replay DB s [] = s"
| "replay DB s (Bulk_query q us # evs) =
     (case bulk_query DB q us s of Inl e \<Rightarrow> replay DB s evs | Inr s' \<Rightarrow> replay DB s' evs)"
| "replay DB s (ev # evs) = replay DB s evs"

text \<open>Every bulk write of the trace succeeded.\<close>

fun committed :: "'s database \<Rightarrow> 's \<Rightarrow> event list \<Rightarrow> bool" where
  "committed DB s [] = True"
| "committed DB s (Bulk_query q us # evs) =
     (case bulk_query DB q us s of Inl e \<Rightarrow> False | Inr s' \<Rightarrow> committed DB s' evs)"
| "committed DB s (ev # evs) = committed DB s evs"

section \<open>Summaries of the parts of a run\<close>

text \<open>
  What the loop did over the records \<open>rs\<close>, from the state \<open>st\<close> to the state \<open>st'\<close> in
  which it returned, with the events \<open>evs\<close>: every bulk write carries 100 updates, the
  updates written and the ones left in the buffer are the updates of the scoreable
  records in order, there is a progress line for each, no file is opened, and fewer than
  100 updates are left.
\<close>

definition batches ::
  "'f utilities \<Rightarrow> row list \<Rightarrow> ('f, 's) state \<Rightarrow> ('f, 's) state \<Rightarrow> event list \<Rightarrow> bool"
where
  "batches U rs st st' evs \<longleftrightarrow>
     trace st' = trace st @ evs
     \<and> (\<forall>p \<in> set (payloads evs). length p = 100)
     \<and> concat (payloads evs) @ updates st' = updates st @ scored U (classifiers st) rs
     \<and> length (scored U (classifiers st) rs) = length (filter (scoreable (classifiers st)) rs)
     \<and> length (progress evs) = length (filter (scoreable (classifiers st)) rs)
     \<and> opened evs = []
     \<and> length (updates st') < 100"

text \<open>
  The events end with a bulk write that raises \<open>e\<close>, after writes that all succeeded.
\<close>

definition write_failed :: "'s database \<Rightarrow> 's \<Rightarrow> error \<Rightarrow> event list \<Rightarrow> bool" where
  "write_failed DB s e evs \<longleftrightarrow>
     (\<exists>pre q us. evs = pre @ [Bulk_query q us] \<and> committed DB s pre
        \<and> bulk_query DB q us (replay DB s pre) = Inl e)"

text \<open>
  A result and the writes among its events agree: a normal end has only writes that
  succeeded; an exception is that of a last write that raised, or comes from elsewhere
  after writes that succeeded.
\<close>

definition outcome_ok :: "'s database \<Rightarrow> 's \<Rightarrow> ('f, 's) result \<Rightarrow> event list \<Rightarrow> bool" where
  "outcome_ok DB s out evs \<longleftrightarrow>
     (case out of
        Inr st \<Rightarrow> committed DB s evs
      | Inl (e, st) \<Rightarrow> committed DB s evs \<or> write_failed DB s e evs)"

text \<open>
  A part of a run, from the state \<open>st\<close> to the result \<open>out\<close>, added the events \<open>evs\<close>
  and left the database with the contents its writes give.
\<close>

definition effects ::
  "'s database \<Rightarrow> ('f, 's) state \<Rightarrow> ('f, 's) result \<Rightarrow> event list \<Rightarrow> bool"
where
  "effects DB st out evs \<longleftrightarrow>
     trace (final out) = trace st @ evs
     \<and> store (final out) = replay DB (store st) evs
     \<and> outcome_ok DB (store st) out evs"

text \<open>The sizes in any result of the loop: writes of 100, a buffer of at most 100.\<close>

definition bounded :: "('f, 's) state \<Rightarrow> ('f, 's) result \<Rightarrow> event list \<Rightarrow> bool" where
  "bounded st out evs \<longleftrightarrow>
     trace (final out) = trace st @ evs
     \<and> opened evs = []
     \<and> (\<forall>p \<in> set (payloads evs). length p = 100)
     \<and> length (updates (final out)) \<le> 100
     \<and> (case out of Inl x \<Rightarrow> True | Inr st' \<Rightarrow> length (updates st') < 100)"

text \<open>A part of a run that writes nothing and prints no progress line.\<close>

definition quiet :: "('f, 's) state \<Rightarrow> ('f, 's) state \<Rightarrow> event list \<Rightarrow> bool" where
  "quiet st st' evs \<longleftrightarrow>
     trace st' = trace st @ evs \<and> store st' = store st
     \<and> payloads evs = [] \<and> progress evs = []"

text \<open>The classifier files of a list of configurations, in order.\<close>

definition paths :: "'f utilities \<Rightarrow> (string \<times> conf) list \<Rightarrow> string list" where
  "paths U cs = map (\<lambda>(directory, conf). classifier_path U directory) cs"

text \<open>The state after the first line printed, and the state in which the loop starts.\<close>

definition begin_run :: "bool \<Rightarrow> 's \<Rightarrow> ('f, 's) state" where
  "begin_run newest s = emit (Print (mode_line newest)) (init s)"

definition start :: "('f, 's) state \<Rightarrow> ('f, 's) state" where
  "start st = (emit (Print_found (length' st)) st)\<lparr>updates := [], idx := 0\<rparr>"

text \<open>The events of a run up to the loop, when it gets there.\<close>

definition preamble :: "'f utilities \<Rightarrow> string \<Rightarrow> bool \<Rightarrow> string option \<Rightarrow> nat \<Rightarrow> event list" where
  "preamble U base newest lang_opt n =
     [Print (mode_line newest), Query (count_query (select_query newest lang_opt)),
      Query (select_query newest lang_opt)]
     @ map Open_file (paths U (confs U base)) @ [Print_found n]"

text \<open>
  The probability a row with id \<open>i\<close> and probability \<open>p\<close> has after a list of updates:
  the one of the last update with that id.
\<close>

definition final_probability :: "score_update list \<Rightarrow> nat \<Rightarrow> real \<Rightarrow> real" where
  "final_probability us i p = fold (\<lambda>u p. if upd_id u = i then probability u else p) us p"

text \<open>The update of a row whose language has a classifier.\<close>

definition update_for ::
  "'f utilities \<Rightarrow> (string \<rightharpoonup> 'f classifier_bundle) \<Rightarrow> ad \<Rightarrow> score_update"
where
  "update_for U cls a =
     \<lparr>upd_id = ad_id a, probability = proba U (the (cls (lang a))) a ! 0 ! 1\<rparr>"

text \<open>The rows a statement selects whose language has a classifier.\<close>

definition scoreable_rows ::
  "(string \<rightharpoonup> 'f classifier_bundle) \<Rightarrow> cond list list \<Rightarrow> ad list \<Rightarrow> ad list"
where
  "scoreable_rows cls cs tbl = filter (\<lambda>a. cls (lang a) \<noteq> None) (matching cs tbl)"

text \<open>
  A configured language cannot be loaded: its file cannot be opened or unpickled, its
  vectorizer cannot be built, or its configuration has no key \<^verbatim>\<open>language\<close>.
\<close>

definition bundle_fails :: "'f utilities \<Rightarrow> string \<times> conf \<Rightarrow> bool" where
  "bundle_fails U c =
     (case c of (directory, conf) \<Rightarrow>
        (case dill_load U (classifier_path U directory) of
           Inl e \<Rightarrow> True
         | Inr m \<Rightarrow>
             (case get_vectorizer U conf of
                Inl e \<Rightarrow> True
              | Inr v \<Rightarrow> conf ''language'' = None)))"

text \<open>
  The dictionary of lines 31 to 37 when every configuration can be loaded: a language has
  the classifier and the vectorizer of the last configuration that names it, and a
  language that no configuration names has none.
\<close>

definition registry ::
  "'f utilities \<Rightarrow> (string \<times> conf) list \<Rightarrow> (string \<rightharpoonup> 'f classifier_bundle)"
where
  "registry U cs l =
     (case find (\<lambda>(directory, conf). conf ''language'' = Some l) (rev cs) of
        None \<Rightarrow> None
      | Some (directory, conf) \<Rightarrow>
          (case dill_load U (classifier_path U directory) of
             Inl e \<Rightarrow> None
           | Inr c \<Rightarrow>
               (case get_vectorizer U conf of
                  Inl e \<Rightarrow> None
                | Inr v \<Rightarrow> Some \<lparr>classifier = c, vectorizer = v\<rparr>)))"

section \<open>Examples\<close>

text \<open>
  One configured language, English. The vectorizer counts characters and the classifier
  returns the row \<open>[1/4, 3/4]\<close> for any text; the text of a record is its markup without
  angle brackets.
\<close>

definition demo_bundle :: "nat classifier_bundle" where
  "demo_bundle = \<lparr>classifier = (\<lambda>n. [[1 / 4, 3 / 4]]),
                  vectorizer = (\<lambda>texts. length (concat texts))\<rparr>"

definition demo_U :: "nat utilities" where
  "demo_U = \<lparr>confs = (\<lambda>base. [(base @ ''/en'', [''language'' \<mapsto> ''en''])]),
     classifier_path = (\<lambda>directory. directory @ ''/classifier.dill''),
     dill_load = (\<lambda>path. Inr (classifier demo_bundle)),
     get_vectorizer = (\<lambda>conf. Inr (vectorizer demo_bundle)),
     get_text = (\<lambda>markup. filter (\<lambda>c. c \<noteq> CHR ''<'' \<and> c \<noteq> CHR ''>'') markup)\<rparr>"

text \<open>A table of 250 unscored English ads and one unscored ad in a language \<^verbatim>\<open>xx\<close>.\<close>

definition demo_ad :: "string \<Rightarrow> nat \<Rightarrow> ad" where
  "demo_ad l i = \<lparr>ad_id = i, lang = l, html = ''<p>vote</p>'', political_probability = 0\<rparr>"

definition demo_ids :: "nat list" where
  "demo_ids = [0..<250]"

definition demo_ads :: "ad list" where
  "demo_ads = map (demo_ad ''en'') demo_ids @ [demo_ad ''xx'' 250]"

text \<open>
  A database that reads and writes as \<open>sql_db\<close> does, and loses its connection after
  \<open>k\<close> bulk writes: the contents are the table and the number of writes so far.
\<close>

definition flaky_db :: "nat \<Rightarrow> (ad list \<times> nat) database" where
  "flaky_db k =
     \<lparr>query = (\<lambda>q (tbl, n). sql_query q tbl),
      bulk_query = (\<lambda>q us (tbl, n).
        if n < k then
          (case sql_bulk_query q us tbl of
             Inl e \<Rightarrow> Inl e
           | Inr tbl' \<Rightarrow> Inr (tbl', n + 1))
        else Inl (Failure ''connection lost''))\<rparr>"

text \<open>
  A run over 101 unscored English ads on a database that loses its connection after one
  bulk write.
\<close>

definition many_ads :: "ad list" where
  "many_ads = map (demo_ad ''en'') [0..<101]"

definition lost_run :: "(nat, ad list \<times> nat) result" where
  "lost_run = classify demo_U (flaky_db 1) ''models'' True None (many_ads, 0)"

text \<open>The example with a second language, German, whose classifier file is missing.\<close>

definition broken_U :: "nat utilities" where
  "broken_U = demo_U
     \<lparr>confs := (\<lambda>base. [(base @ ''/en'', [''language'' \<mapsto> ''en'']),
                         (base @ ''/de'', [''language'' \<mapsto> ''de''])]),
      dill_load := (\<lambda>path. if path = ''models/de/classifier.dill''
                            then Inl (Failure ''No such file or directory'')
                            else Inr (classifier demo_bundle))\<rparr>"

section \<open>One record\<close>

lemma payloads_append: "payloads (xs @ ys) = payloads xs @ payloads ys"
  by (induction xs rule: payloads.induct) simp_all

lemma progress_append: "progress (xs @ ys) = progress xs @ progress ys"
  by (induction xs rule: progress.induct) simp_all

lemma opened_append: "opened (xs @ ys) = opened xs @ opened ys"
  by (induction xs rule: opened.induct) simp_all

lemma replay_append: "replay DB s (xs @ ys) = replay DB (replay DB s xs) ys"
  by (induction DB s xs rule: replay.induct) (simp_all split: sum.splits)

lemma committed_append:
  "committed DB s (xs @ ys) = (committed DB s xs \<and> committed DB (replay DB s xs) ys)"
  by (induction DB s xs rule: committed.induct) (simp_all split: sum.splits)

lemma emit_fields [simp]:
  "store (emit ev st) = store st" "trace (emit ev st) = trace st @ [ev]"
  "classifiers (emit ev st) = classifiers st" "length' (emit ev st) = length' st"
  "updates (emit ev st) = updates st" "idx (emit ev st) = idx st"
  by (simp_all add: emit_def)

lemma body_Length: "body U DB (Length n) st = Inl (KeyError, st\<lparr>idx := idx st + 1\<rparr>)"
  by (simp add: body_def)

lemma body_skip:
  "classifiers st (lang a) = None \<Longrightarrow> body U DB (Ad a) st = Inr (st\<lparr>idx := idx st + 1\<rparr>)"
  by (simp add: body_def)

lemma body_score_fails:
  assumes "classifiers st (lang a) = Some b" and "score U b a = Inl e"
  shows "body U DB (Ad a) st = Inl (e, st\<lparr>idx := idx st + 1\<rparr>)"
  using assms by (simp add: body_def)

lemma body_keep:
  assumes "classifiers st (lang a) = Some b" and "score U b a = Inr u"
    and "length (updates st) + 1 < 100"
  shows "body U DB (Ad a) st =
     Inr (st\<lparr>idx := idx st + 1, updates := updates st @ [u],
              trace := trace st @
                [Print_classified (upd_id u) (idx st + 1) (length' st) (probability u)]\<rparr>)"
  using assms by (simp add: body_def buffer_def emit_def Let_def)

lemma body_write:
  assumes "classifiers st (lang a) = Some b" and "score U b a = Inr u"
    and "100 \<le> length (updates st) + 1"
    and "bulk_query DB update_query (updates st @ [u]) (store st) = Inr s"
  shows "body U DB (Ad a) st =
     Inr (st\<lparr>idx := idx st + 1, updates := [],
              trace := trace st @
                [Print_classified (upd_id u) (idx st + 1) (length' st) (probability u),
                 Bulk_query update_query (updates st @ [u])],
              store := s\<rparr>)"
  using assms by (simp add: body_def buffer_def bulk_write_def emit_def Let_def)

lemma body_write_fails:
  assumes "classifiers st (lang a) = Some b" and "score U b a = Inr u"
    and "100 \<le> length (updates st) + 1"
    and "bulk_query DB update_query (updates st @ [u]) (store st) = Inl e"
  shows "body U DB (Ad a) st =
     Inl (e, st\<lparr>idx := idx st + 1, updates := updates st @ [u],
              trace := trace st @
                [Print_classified (upd_id u) (idx st + 1) (length' st) (probability u),
                 Bulk_query update_query (updates st @ [u])]\<rparr>)"
  using assms by (simp add: body_def buffer_def bulk_write_def emit_def Let_def)

lemma body_cases:
  fixes U :: "'f utilities" and DB :: "'s database" and st :: "('f, 's) state"
  obtains (not_ad) n where "r = Length n"
  | (skipped) a where "r = Ad a" "classifiers st (lang a) = None"
  | (score_fails) a b e where "r = Ad a" "classifiers st (lang a) = Some b" "score U b a = Inl e"
  | (kept) a b u where "r = Ad a" "classifiers st (lang a) = Some b" "score U b a = Inr u"
      "length (updates st) + 1 < 100"
  | (written) a b u s where "r = Ad a" "classifiers st (lang a) = Some b" "score U b a = Inr u"
      "100 \<le> length (updates st) + 1"
      "bulk_query DB update_query (updates st @ [u]) (store st) = Inr s"
  | (write_fails) a b u e where "r = Ad a" "classifiers st (lang a) = Some b" "score U b a = Inr u"
      "100 \<le> length (updates st) + 1"
      "bulk_query DB update_query (updates st @ [u]) (store st) = Inl e"
proof (cases r)
  case (Length n)
  then show ?thesis using not_ad by blast
next
  case (Ad a)
  show ?thesis
  proof (cases "classifiers st (lang a)")
    case None
    with Ad show ?thesis using skipped by blast
  next
    case (Some b)
    show ?thesis
    proof (cases "score U b a")
      case (Inl e)
      with Ad Some show ?thesis using score_fails by blast
    next
      case (Inr u)
      show ?thesis
      proof (cases "length (updates st) + 1 < 100")
        case True
        with Ad Some Inr show ?thesis using kept by blast
      next
        case False
        then have full: "100 \<le> length (updates st) + 1" by simp
        show ?thesis
        proof (cases "bulk_query DB update_query (updates st @ [u]) (store st)")
          case (Inl e)
          with Ad Some Inr full show ?thesis using write_fails by blast
        next
          case Inr2: (Inr s)
          with Ad Some Inr full show ?thesis using written by blast
        qed
      qed
    qed
  qed
qed

section \<open>The loop\<close>

lemma body_frame:
  assumes "body U DB r st = Inr st1"
  shows "classifiers st1 = classifiers st \<and> idx st1 = idx st + 1 \<and> length' st1 = length' st"
proof (cases rule: body_cases [where r = r and st = st and U = U and DB = DB])
  case (not_ad n)
  with assms show ?thesis by (auto simp: body_Length)
next
  case (skipped a)
  with assms show ?thesis by (auto simp: body_skip)
next
  case (score_fails a b e)
  with assms show ?thesis by (auto simp: body_score_fails)
next
  case (kept a b u)
  with assms show ?thesis by (auto simp: body_keep)
next
  case (written a b u s)
  with assms show ?thesis by (auto simp: body_write)
next
  case (write_fails a b u e)
  with assms show ?thesis by (auto simp: body_write_fails)
qed

lemma loop_frame:
  assumes "loop U DB rs st = Inr st'"
  shows "classifiers st' = classifiers st \<and> idx st' = idx st + length rs \<and> length' st' = length' st"
  using assms
proof (induction rs arbitrary: st)
  case Nil
  then show ?case by simp
next
  case (Cons r rs)
  then obtain st1 where b: "body U DB r st = Inr st1" and l: "loop U DB rs st1 = Inr st'"
    by (auto split: sum.splits)
  from body_frame [OF b] Cons.IH [OF l] show ?case by simp
qed

lemma body_batches:
  assumes "body U DB r st = Inr st1" and "length (updates st) < 100"
  shows "\<exists>evs. batches U [r] st st1 evs"
proof (cases rule: body_cases [where r = r and st = st and U = U and DB = DB])
  case (not_ad n)
  with assms show ?thesis by (auto simp: body_Length)
next
  case (skipped a)
  with assms have "batches U [r] st st1 []"
    by (auto simp: body_skip batches_def scoreable_def)
  then show ?thesis ..
next
  case (score_fails a b e)
  with assms show ?thesis by (auto simp: body_score_fails)
next
  case (kept a b u)
  with assms have
    "batches U [r] st st1 [Print_classified (upd_id u) (idx st + 1) (length' st) (probability u)]"
    by (auto simp: body_keep batches_def scoreable_def)
  then show ?thesis ..
next
  case (written a b u s)
  with assms have
    "batches U [r] st st1 [Print_classified (upd_id u) (idx st + 1) (length' st) (probability u),
        Bulk_query update_query (updates st @ [u])]"
    by (auto simp: body_write batches_def scoreable_def)
  then show ?thesis ..
next
  case (write_fails a b u e)
  with assms show ?thesis by (auto simp: body_write_fails)
qed

lemma batches_trans:
  assumes 1: "batches U [r] st st1 evs1" and 2: "batches U rs st1 st' evs2"
    and c: "classifiers st1 = classifiers st"
  shows "batches U (r # rs) st st' (evs1 @ evs2)"
proof -
  let ?cls = "classifiers st"
  have s: "scored U ?cls (r # rs) = scored U ?cls [r] @ scored U ?cls rs"
    by simp
  have f: "filter (scoreable ?cls) (r # rs) = filter (scoreable ?cls) [r] @ filter (scoreable ?cls) rs"
    by simp
  have "concat (payloads (evs1 @ evs2)) @ updates st'
      = concat (payloads evs1) @ (concat (payloads evs2) @ updates st')"
    by (simp add: payloads_append)
  also have "\<dots> = concat (payloads evs1) @ (updates st1 @ scored U ?cls rs)"
    using 2 c by (simp add: batches_def)
  also have "\<dots> = (concat (payloads evs1) @ updates st1) @ scored U ?cls rs"
    by simp
  also have "\<dots> = (updates st @ scored U ?cls [r]) @ scored U ?cls rs"
    using 1 by (simp only: batches_def)
  finally have cc: "concat (payloads (evs1 @ evs2)) @ updates st'
      = updates st @ scored U ?cls (r # rs)"
    by (simp only: s append_assoc)
  have t: "trace st' = trace st @ evs1 @ evs2"
    using 1 2 by (simp add: batches_def)
  have p: "\<forall>p \<in> set (payloads (evs1 @ evs2)). length p = 100"
    using 1 2 by (auto simp: batches_def payloads_append)
  have n: "length (scored U ?cls (r # rs)) = length (filter (scoreable ?cls) (r # rs))"
    using 1 2 c unfolding s f by (simp only: batches_def length_append)
  have g: "length (progress (evs1 @ evs2)) = length (filter (scoreable ?cls) (r # rs))"
    using 1 2 c unfolding f by (simp only: batches_def length_append progress_append)
  have o: "opened (evs1 @ evs2) = []"
    using 1 2 by (simp add: batches_def opened_append)
  have b: "length (updates st') < 100"
    using 2 by (simp add: batches_def)
  show ?thesis
    unfolding batches_def using t p cc n g o b by blast
qed

lemma loop_batches:
  assumes "loop U DB rs st = Inr st'" and "length (updates st) < 100"
  shows "\<exists>evs. batches U rs st st' evs"
  using assms
proof (induction rs arbitrary: st)
  case Nil
  then have "batches U [] st st' []" by (simp add: batches_def)
  then show ?case ..
next
  case (Cons r rs)
  then obtain st1 where b: "body U DB r st = Inr st1" and l: "loop U DB rs st1 = Inr st'"
    by (auto split: sum.splits)
  from body_batches [OF b Cons.prems(2)] obtain evs1 where 1: "batches U [r] st st1 evs1" ..
  then have "length (updates st1) < 100" by (simp add: batches_def)
  from Cons.IH [OF l this] obtain evs2 where 2: "batches U rs st1 st' evs2" ..
  from body_frame [OF b] have "classifiers st1 = classifiers st" by simp
  from batches_trans [OF 1 2 this] show ?case ..
qed

lemma final_Inr [simp]: "final (Inr st) = st"
  by (simp add: final_def)

lemma final_Inl [simp]: "final (Inl (e, st)) = st"
  by (simp add: final_def)

lemma effects_trans:
  assumes 1: "effects DB st (Inr st1) evs1" and 2: "effects DB st1 out evs2"
  shows "effects DB st out (evs1 @ evs2)"
proof -
  have s1: "store st1 = replay DB (store st) evs1" and c1: "committed DB (store st) evs1"
    and t1: "trace st1 = trace st @ evs1"
    using 1 by (simp_all add: effects_def outcome_ok_def)
  have t: "trace (final out) = trace st @ evs1 @ evs2"
    using 2 t1 by (simp add: effects_def)
  have s: "store (final out) = replay DB (store st) (evs1 @ evs2)"
    using 2 s1 by (simp add: effects_def replay_append)
  have o2: "outcome_ok DB (store st1) out evs2"
    using 2 by (simp add: effects_def)
  have "outcome_ok DB (store st) out (evs1 @ evs2)"
  proof (cases out)
    case (Inr st')
    with o2 c1 s1 show ?thesis by (simp add: outcome_ok_def committed_append)
  next
    case (Inl x)
    obtain e st' where x: "x = (e, st')" by (cases x)
    from o2 Inl x have "committed DB (store st1) evs2 \<or> write_failed DB (store st1) e evs2"
      by (simp add: outcome_ok_def)
    then show ?thesis
    proof
      assume "committed DB (store st1) evs2"
      with c1 s1 Inl x show ?thesis by (simp add: outcome_ok_def committed_append)
    next
      assume "write_failed DB (store st1) e evs2"
      then obtain pre q us where p: "evs2 = pre @ [Bulk_query q us]"
          "committed DB (store st1) pre" "bulk_query DB q us (replay DB (store st1) pre) = Inl e"
        unfolding write_failed_def by blast
      have "evs1 @ evs2 = (evs1 @ pre) @ [Bulk_query q us]" using p(1) by simp
      moreover have "committed DB (store st) (evs1 @ pre)"
        using c1 s1 p(2) by (simp add: committed_append)
      moreover have "bulk_query DB q us (replay DB (store st) (evs1 @ pre)) = Inl e"
        using s1 p(3) by (simp add: replay_append)
      ultimately have "write_failed DB (store st) e (evs1 @ evs2)"
        unfolding write_failed_def by blast
      with Inl x show ?thesis by (simp add: outcome_ok_def)
    qed
  qed
  with t s show ?thesis by (simp add: effects_def)
qed

lemma body_effects: "\<exists>evs. effects DB st (body U DB r st) evs"
proof (cases rule: body_cases [where r = r and st = st and U = U and DB = DB])
  case (not_ad n)
  then have "effects DB st (body U DB r st) []"
    by (simp add: body_Length effects_def outcome_ok_def)
  then show ?thesis ..
next
  case (skipped a)
  then have "effects DB st (body U DB r st) []"
    by (simp add: body_skip effects_def outcome_ok_def)
  then show ?thesis ..
next
  case (score_fails a b e)
  then have "effects DB st (body U DB r st) []"
    by (simp add: body_score_fails effects_def outcome_ok_def)
  then show ?thesis ..
next
  case (kept a b u)
  then have "effects DB st (body U DB r st)
      [Print_classified (upd_id u) (idx st + 1) (length' st) (probability u)]"
    by (simp add: body_keep effects_def outcome_ok_def)
  then show ?thesis ..
next
  case (written a b u s)
  then have "effects DB st (body U DB r st)
      [Print_classified (upd_id u) (idx st + 1) (length' st) (probability u),
       Bulk_query update_query (updates st @ [u])]"
    by (simp add: body_write effects_def outcome_ok_def)
  then show ?thesis ..
next
  case (write_fails a b u e)
  let ?p = "Print_classified (upd_id u) (idx st + 1) (length' st) (probability u)"
  let ?w = "Bulk_query update_query (updates st @ [u])"
  have "write_failed DB (store st) e ([?p] @ [?w])"
    unfolding write_failed_def using write_fails(5) by (intro exI [of _ "[?p]"] exI) simp
  with write_fails have "effects DB st (body U DB r st) [?p, ?w]"
    by (simp add: body_write_fails effects_def outcome_ok_def)
  then show ?thesis ..
qed

lemma loop_effects: "\<exists>evs. effects DB st (loop U DB rs st) evs"
proof (induction rs arbitrary: st)
  case Nil
  have "effects DB st (loop U DB [] st) []"
    by (simp add: effects_def outcome_ok_def)
  then show ?case ..
next
  case (Cons r rs)
  obtain evs1 where 1: "effects DB st (body U DB r st) evs1"
    using body_effects by blast
  show ?case
  proof (cases "body U DB r st")
    case (Inl x)
    with 1 have "effects DB st (loop U DB (r # rs) st) evs1" by simp
    then show ?thesis ..
  next
    case (Inr st1)
    obtain evs2 where 2: "effects DB st1 (loop U DB rs st1) evs2"
      using Cons.IH by blast
    from 1 Inr have "effects DB st (Inr st1) evs1" by simp
    from effects_trans [OF this 2] Inr show ?thesis by auto
  qed
qed

lemma bulk_write_effects: "\<exists>evs. effects DB st (bulk_write DB st) evs"
proof (cases "bulk_query DB update_query (updates st) (store st)")
  case (Inl e)
  have "write_failed DB (store st) e ([] @ [Bulk_query update_query (updates st)])"
    unfolding write_failed_def using Inl by (intro exI [of _ "[]"] exI) simp
  with Inl have "effects DB st (bulk_write DB st) [Bulk_query update_query (updates st)]"
    by (simp add: bulk_write_def emit_def effects_def outcome_ok_def)
  then show ?thesis ..
next
  case (Inr s)
  then have "effects DB st (bulk_write DB st) [Bulk_query update_query (updates st)]"
    by (simp add: bulk_write_def emit_def effects_def outcome_ok_def)
  then show ?thesis ..
qed

lemma flush_effects: "\<exists>evs. effects DB st (flush DB st) evs"
proof (cases "updates st = []")
  case True
  then have "effects DB st (flush DB st) []"
    by (simp add: flush_def effects_def outcome_ok_def)
  then show ?thesis ..
next
  case False
  then show ?thesis using bulk_write_effects [of DB st] by (simp add: flush_def)
qed

lemma body_bounded:
  assumes "length (updates st) < 100"
  shows "\<exists>evs. bounded st (body U DB r st) evs"
proof (cases rule: body_cases [where r = r and st = st and U = U and DB = DB])
  case (not_ad n)
  with assms have "bounded st (body U DB r st) []"
    by (simp add: body_Length bounded_def)
  then show ?thesis ..
next
  case (skipped a)
  with assms have "bounded st (body U DB r st) []"
    by (simp add: body_skip bounded_def)
  then show ?thesis ..
next
  case (score_fails a b e)
  with assms have "bounded st (body U DB r st) []"
    by (simp add: body_score_fails bounded_def)
  then show ?thesis ..
next
  case (kept a b u)
  with assms have "bounded st (body U DB r st)
      [Print_classified (upd_id u) (idx st + 1) (length' st) (probability u)]"
    by (simp add: body_keep bounded_def)
  then show ?thesis ..
next
  case (written a b u s)
  with assms have "bounded st (body U DB r st)
      [Print_classified (upd_id u) (idx st + 1) (length' st) (probability u),
       Bulk_query update_query (updates st @ [u])]"
    by (simp add: body_write bounded_def)
  then show ?thesis ..
next
  case (write_fails a b u e)
  with assms have "bounded st (body U DB r st)
      [Print_classified (upd_id u) (idx st + 1) (length' st) (probability u),
       Bulk_query update_query (updates st @ [u])]"
    by (simp add: body_write_fails bounded_def)
  then show ?thesis ..
qed

lemma bounded_trans:
  assumes 1: "bounded st (Inr st1) evs1" and 2: "bounded st1 out evs2"
  shows "bounded st out (evs1 @ evs2)"
  using assms unfolding bounded_def
  by (simp add: opened_append payloads_append) blast

lemma loop_bounded:
  assumes "length (updates st) < 100"
  shows "\<exists>evs. bounded st (loop U DB rs st) evs"
  using assms
proof (induction rs arbitrary: st)
  case Nil
  then have "bounded st (loop U DB [] st) []"
    by (simp add: bounded_def)
  then show ?case ..
next
  case (Cons r rs)
  obtain evs1 where 1: "bounded st (body U DB r st) evs1"
    using body_bounded [OF Cons.prems] by blast
  show ?case
  proof (cases "body U DB r st")
    case (Inl x)
    with 1 have "bounded st (loop U DB (r # rs) st) evs1" by simp
    then show ?thesis ..
  next
    case (Inr st1)
    with 1 have b: "bounded st (Inr st1) evs1" by simp
    then have "length (updates st1) < 100" by (simp add: bounded_def)
    from Cons.IH [OF this] obtain evs2 where 2: "bounded st1 (loop U DB rs st1) evs2" ..
    from bounded_trans [OF b 2] Inr show ?thesis by auto
  qed
qed

lemma run_queries_Inl:
  assumes "run_queries DB q st = Inl (e, st')"
  shows "\<exists>evs. quiet st st' evs \<and> opened evs = []"
proof -
  have "quiet st st' [Query (count_query q)] \<or> quiet st st' [Query (count_query q), Query q]"
    using assms
    by (auto simp: run_queries_def emit_def Let_def quiet_def split: sum.splits)
  moreover have "opened [Query (count_query q)] = []" "opened [Query (count_query q), Query q] = []"
    by simp_all
  ultimately show ?thesis by blast
qed

lemma run_queries_Inr:
  assumes "run_queries DB q st = Inr (records, st')"
  shows "\<exists>rows n. query DB (count_query q) (store st) = Inr rows \<and> first_length rows = Inr n
           \<and> query DB q (store st) = Inr records
           \<and> st' = st\<lparr>length' := n, trace := trace st @ [Query (count_query q), Query q]\<rparr>"
  using assms
  by (auto simp: run_queries_def emit_def Let_def split: sum.splits)

lemma opened_Open_files [simp]:
  "opened (map Open_file ps) = ps" "payloads (map Open_file ps) = []"
  "progress (map Open_file ps) = []"
  by (induction ps) simp_all

lemma load_classifiers_Inr:
  assumes "load_classifiers U cs st = Inr st'"
  shows "st' = st\<lparr>trace := trace st @ map Open_file (paths U cs), classifiers := classifiers st'\<rparr>"
  using assms
proof (induction cs arbitrary: st)
  case Nil
  then show ?case by (auto simp: paths_def)
next
  case (Cons dc cs)
  obtain directory conf where dc: "dc = (directory, conf)" by (cases dc)
  from Cons.prems dc obtain c v l where
    l: "load_classifiers U cs
          ((emit (Open_file (classifier_path U directory)) st)
             \<lparr>classifiers := (classifiers st)(l \<mapsto> \<lparr>classifier = c, vectorizer = v\<rparr>)\<rparr>) = Inr st'"
    by (auto simp: Let_def emit_def split: sum.splits option.splits)
  from Cons.IH [OF l] dc show ?case
    by (simp add: paths_def emit_def)
qed

lemma load_classifiers_Inl:
  assumes "load_classifiers U cs st = Inl (e, st')"
  shows "\<exists>ps. trace st' = trace st @ map Open_file ps \<and> store st' = store st"
  using assms
proof (induction cs arbitrary: st)
  case Nil
  then show ?case by simp
next
  case (Cons dc cs)
  obtain directory conf where dc: "dc = (directory, conf)" by (cases dc)
  let ?st = "emit (Open_file (classifier_path U directory)) st"
  have t: "trace ?st = trace st @ map Open_file [classifier_path U directory]" "store ?st = store st"
    by (simp_all add: emit_def)
  from Cons.prems dc consider "st' = ?st"
    | c v l where "load_classifiers U cs
          (?st\<lparr>classifiers := (classifiers st)(l \<mapsto> \<lparr>classifier = c, vectorizer = v\<rparr>)\<rparr>) = Inl (e, st')"
    by (auto simp: Let_def split: sum.splits option.splits)
  then show ?case
  proof cases
    case 1
    with t show ?thesis by blast
  next
    case 2
    from Cons.IH [OF 2] obtain ps where
      "trace st' = trace st @ map Open_file (classifier_path U directory # ps)" "store st' = store st"
      using t by (auto simp: emit_def)
    then show ?thesis by blast
  qed
qed

lemma load_classifiers_same:
  assumes "load_classifiers U cs st = Inr st'" and "classifiers st2 = classifiers st"
  shows "\<exists>st2'. load_classifiers U cs st2 = Inr st2' \<and> classifiers st2' = classifiers st'"
  using assms
proof (induction cs arbitrary: st st2)
  case Nil
  then show ?case by auto
next
  case (Cons dc cs)
  obtain directory conf where dc: "dc = (directory, conf)" by (cases dc)
  from Cons.prems(1) dc obtain c v l where
    d: "dill_load U (classifier_path U directory) = Inr c" "get_vectorizer U conf = Inr v"
       "conf ''language'' = Some l"
    and l: "load_classifiers U cs
          ((emit (Open_file (classifier_path U directory)) st)
             \<lparr>classifiers := (classifiers st)(l \<mapsto> \<lparr>classifier = c, vectorizer = v\<rparr>)\<rparr>) = Inr st'"
    by (auto simp: Let_def emit_def split: sum.splits option.splits)
  let ?st2 = "(emit (Open_file (classifier_path U directory)) st2)
             \<lparr>classifiers := (classifiers st2)(l \<mapsto> \<lparr>classifier = c, vectorizer = v\<rparr>)\<rparr>"
  have "classifiers ?st2 = classifiers ((emit (Open_file (classifier_path U directory)) st)
             \<lparr>classifiers := (classifiers st)(l \<mapsto> \<lparr>classifier = c, vectorizer = v\<rparr>)\<rparr>)"
    using Cons.prems(2) by simp
  from Cons.IH [OF l this] d dc show ?case
    by (simp add: Let_def)
qed

lemma body_progress:
  assumes "body U DB r st = Inr st1"
  shows "\<exists>evs. trace st1 = trace st @ evs
           \<and> (\<forall>(i, k, n, p) \<in> set (progress evs). n = length' st \<and> k = idx st + 1)"
proof (cases rule: body_cases [where r = r and st = st and U = U and DB = DB])
  case (not_ad n)
  with assms show ?thesis by (simp add: body_Length)
next
  case (skipped a)
  with assms have "trace st1 = trace st @ []" by (auto simp: body_skip)
  then show ?thesis by (intro exI [of _ "[]"]) simp
next
  case (score_fails a b e)
  with assms show ?thesis by (simp add: body_score_fails)
next
  case (kept a b u)
  with assms have "trace st1 = trace st @
      [Print_classified (upd_id u) (idx st + 1) (length' st) (probability u)]"
    by (auto simp: body_keep)
  then show ?thesis
    by (intro exI [of _ "[Print_classified (upd_id u) (idx st + 1) (length' st) (probability u)]"])
       simp
next
  case (written a b u s)
  with assms have "trace st1 = trace st @
      [Print_classified (upd_id u) (idx st + 1) (length' st) (probability u),
       Bulk_query update_query (updates st @ [u])]"
    by (auto simp: body_write)
  then show ?thesis
    by (intro exI [of _ "[Print_classified (upd_id u) (idx st + 1) (length' st) (probability u),
       Bulk_query update_query (updates st @ [u])]"]) simp
next
  case (write_fails a b u e)
  with assms show ?thesis by (simp add: body_write_fails)
qed

lemma loop_progress:
  assumes "loop U DB rs st = Inr st'" and "trace st' = trace st @ evs"
  shows "\<forall>(i, k, n, p) \<in> set (progress evs).
           n = length' st \<and> idx st < k \<and> k \<le> idx st + length rs"
  using assms
proof (induction rs arbitrary: st evs)
  case Nil
  then show ?case by simp
next
  case (Cons r rs)
  then obtain st1 where b: "body U DB r st = Inr st1" and l: "loop U DB rs st1 = Inr st'"
    by (auto split: sum.splits)
  from body_progress [OF b] obtain e1 where
    e1: "trace st1 = trace st @ e1"
        "\<forall>(i, k, n, p) \<in> set (progress e1). n = length' st \<and> k = idx st + 1"
    by blast
  obtain e2 where "effects DB st1 (loop U DB rs st1) e2"
    using loop_effects by blast
  with l have e2: "trace st' = trace st1 @ e2" by (simp add: effects_def)
  from Cons.IH [OF l e2] body_frame [OF b] have
    i: "\<forall>(i, k, n, p) \<in> set (progress e2).
          n = length' st \<and> idx st + 1 < k \<and> k \<le> idx st + 1 + length rs"
    by simp
  from Cons.prems(2) e1(1) e2 have "evs = e1 @ e2" by simp
  with e1(2) i show ?case by (auto simp: progress_append)
qed

section \<open>The whole run\<close>

lemma classify_cases:
  fixes U :: "'f utilities" and DB :: "'s database" and base :: string and newest :: bool
    and lang_opt :: "string option" and s :: 's
  defines "out \<equiv> classify U DB base newest lang_opt s"
    and "q \<equiv> select_query newest lang_opt"
  obtains (queries_fail) e st' where
      "run_queries DB q (begin_run newest s :: ('f, 's) state) = Inl (e, st')" "out = Inl (e, st')"
  | (load_fails) records stq e st' where
      "run_queries DB q (begin_run newest s :: ('f, 's) state) = Inr (records, stq)"
      "load_classifiers U (confs U base) (stq\<lparr>classifiers := Map.empty\<rparr>) = Inl (e, st')"
      "out = Inl (e, st')"
  | (loop_fails) records stq st1 e st' where
      "run_queries DB q (begin_run newest s :: ('f, 's) state) = Inr (records, stq)"
      "load_classifiers U (confs U base) (stq\<lparr>classifiers := Map.empty\<rparr>) = Inr st1"
      "loop U DB records (start st1) = Inl (e, st')"
      "out = Inl (e, st')"
  | (flushed) records stq st1 st2 where
      "run_queries DB q (begin_run newest s :: ('f, 's) state) = Inr (records, stq)"
      "load_classifiers U (confs U base) (stq\<lparr>classifiers := Map.empty\<rparr>) = Inr st1"
      "loop U DB records (start st1) = Inr st2"
      "out = flush DB st2"
proof (cases "run_queries DB q (begin_run newest s :: ('f, 's) state)")
  case (Inl x)
  obtain e st' where x: "x = (e, st')" by (cases x)
  with Inl have "out = Inl (e, st')"
    by (simp add: out_def q_def classify_def begin_run_def)
  with Inl x show ?thesis using queries_fail by blast
next
  case (Inr y)
  obtain records stq where y: "y = (records, stq)" by (cases y)
  note rq = Inr [unfolded y]
  show ?thesis
  proof (cases "load_classifiers U (confs U base) (stq\<lparr>classifiers := Map.empty\<rparr>)")
    case (Inl x)
    obtain e st' where x: "x = (e, st')" by (cases x)
    with Inl rq have "out = Inl (e, st')"
      by (simp add: out_def q_def classify_def begin_run_def)
    with Inl x rq show ?thesis using load_fails by blast
  next
    case ld: (Inr st1)
    show ?thesis
    proof (cases "loop U DB records (start st1)")
      case (Inl x)
      obtain e st' where x: "x = (e, st')" by (cases x)
      with Inl rq ld have "out = Inl (e, st')"
        by (simp add: out_def q_def classify_def begin_run_def start_def Let_def)
      with Inl x rq ld show ?thesis using loop_fails by blast
    next
      case (Inr st2)
      with rq ld have "out = flush DB st2"
        by (simp add: out_def q_def classify_def begin_run_def start_def Let_def)
      with Inr rq ld show ?thesis using flushed by blast
    qed
  qed
qed

lemma preamble_quiet [simp]:
  "payloads (preamble U base newest lang_opt n) = []"
  "progress (preamble U base newest lang_opt n) = []"
  "opened (preamble U base newest lang_opt n) = paths U (confs U base)"
  by (simp_all add: preamble_def payloads_append progress_append opened_append)

lemma replay_quiet: "payloads evs = [] \<Longrightarrow> replay DB s evs = s"
  by (induction DB s evs rule: replay.induct) simp_all

lemma committed_quiet: "payloads evs = [] \<Longrightarrow> committed DB s evs"
  by (induction DB s evs rule: committed.induct) simp_all

lemma begin_run_fields [simp]:
  "trace (begin_run newest s) = [Print (mode_line newest)]" "store (begin_run newest s) = s"
  "length' (begin_run newest s) = 0"
  by (simp_all add: begin_run_def init_def)

lemma start_fields:
  fixes stq st1 :: "('f, 's) state"
  assumes rq: "run_queries DB (select_query newest lang_opt) (begin_run newest s) = Inr (records, stq)"
    and ld: "load_classifiers U (confs U base) (stq\<lparr>classifiers := Map.empty\<rparr>) = Inr st1"
  shows "trace (start st1) = preamble U base newest lang_opt (length' st1)"
    and "store (start st1) = s" and "updates (start st1) = []" and "idx (start st1) = 0"
    and "length' (start st1) = length' st1" and "classifiers (start st1) = classifiers st1"
    and "\<exists>rows. query DB (count_query (select_query newest lang_opt)) s = Inr rows
           \<and> first_length rows = Inr (length' st1)"
    and "query DB (select_query newest lang_opt) s = Inr records"
proof -
  from run_queries_Inr [OF rq] obtain rows n where
    q: "query DB (count_query (select_query newest lang_opt)) s = Inr rows"
       "first_length rows = Inr n" "query DB (select_query newest lang_opt) s = Inr records"
    and stq: "stq = (begin_run newest s)\<lparr>length' := n,
        trace := trace (begin_run newest s :: ('f, 's) state) @
          [Query (count_query (select_query newest lang_opt)), Query (select_query newest lang_opt)]\<rparr>"
    by auto
  have st1: "st1 = (stq\<lparr>classifiers := Map.empty\<rparr>)\<lparr>trace := trace (stq\<lparr>classifiers := Map.empty\<rparr>)
       @ map Open_file (paths U (confs U base)), classifiers := classifiers st1\<rparr>"
    by (rule load_classifiers_Inr [OF ld])
  have t: "trace st1 = [Print (mode_line newest),
      Query (count_query (select_query newest lang_opt)), Query (select_query newest lang_opt)]
      @ map Open_file (paths U (confs U base))"
    by (subst st1, subst stq) simp
  have s1: "store st1 = s" by (subst st1, subst stq) simp
  have n1: "length' st1 = n" by (subst st1, subst stq) simp
  show "trace (start st1) = preamble U base newest lang_opt (length' st1)"
    using t by (simp add: start_def preamble_def)
  show "store (start st1) = s" using s1 by (simp add: start_def)
  show "updates (start st1) = []" "idx (start st1) = 0" "length' (start st1) = length' st1"
    "classifiers (start st1) = classifiers st1"
    by (simp_all add: start_def)
  show "\<exists>rows. query DB (count_query (select_query newest lang_opt)) s = Inr rows
           \<and> first_length rows = Inr (length' st1)"
    using q n1 by blast
  show "query DB (select_query newest lang_opt) s = Inr records" by (rule q(3))
qed

lemma flush_Inr:
  assumes "flush DB st2 = Inr st"
  shows "\<exists>w. trace st = trace st2 @ w \<and> payloads w = (if updates st2 = [] then [] else [updates st2])
           \<and> progress w = [] \<and> opened w = []
           \<and> store st = replay DB (store st2) w \<and> committed DB (store st2) w
           \<and> classifiers st = classifiers st2 \<and> idx st = idx st2 \<and> length' st = length' st2"
proof (cases "updates st2 = []")
  case True
  with assms have "st = st2" by (simp add: flush_def)
  with True show ?thesis by (intro exI [of _ "[]"]) simp
next
  case False
  with assms obtain s' where
    "bulk_query DB update_query (updates st2) (store st2) = Inr s'"
    "st = (emit (Bulk_query update_query (updates st2)) st2)\<lparr>store := s'\<rparr>"
    by (auto simp: flush_def bulk_write_def Let_def split: sum.splits)
  with False show ?thesis
    by (intro exI [of _ "[Bulk_query update_query (updates st2)]"]) simp
qed

lemma classify_Inr:
  fixes U :: "'f utilities" and DB :: "'s database" and st :: "('f, 's) state"
  assumes run: "classify U DB base newest lang_opt s = Inr st"
  obtains rows records ps b evs sta stb stl stm where
    "query DB (count_query (select_query newest lang_opt)) s = Inr rows"
    "first_length rows = Inr (length' st)"
    "query DB (select_query newest lang_opt) s = Inr records"
    "idx st = length records"
    "trace st = preamble U base newest lang_opt (length' st) @ evs"
    "payloads evs = ps @ (if b = [] then [] else [b])"
    "\<forall>p \<in> set ps. length p = 100" "length b < 100"
    "concat ps @ b = scored U (classifiers st) records"
    "length (scored U (classifiers st) records)
       = length (filter (scoreable (classifiers st)) records)"
    "length (progress evs) = length (filter (scoreable (classifiers st)) records)"
    "opened evs = []"
    "store st = replay DB s evs" "committed DB s evs"
    "load_classifiers U (confs U base) (sta :: ('f, 's) state) = Inr stb"
    "classifiers sta = Map.empty" "classifiers stb = classifiers st"
    "loop U DB records stl = Inr stm" "classifiers stl = classifiers st"
    "\<forall>(i, k, n, p) \<in> set (progress evs). n = length' st \<and> 0 < k \<and> k \<le> length records"
proof (cases rule: classify_cases [where U = U and DB = DB and base = base and newest = newest
      and lang_opt = lang_opt and s = s])
  case (queries_fail e st')
  with run show ?thesis by simp
next
  case (load_fails records stq e st')
  with run show ?thesis by simp
next
  case (loop_fails records stq st1 e st')
  with run show ?thesis by simp
next
  case (flushed records stq st1 st2)
  note sf = start_fields [OF flushed(1,2)]
  from flushed(4) run have fl: "flush DB st2 = Inr st" by simp
  from loop_frame [OF flushed(3)] have
    fr: "classifiers st2 = classifiers st1" "idx st2 = length records" "length' st2 = length' st1"
    by (simp_all add: sf)
  have "length (updates (start st1)) < 100" by (simp add: sf)
  from loop_batches [OF flushed(3) this] obtain evs where
    ba: "batches U records (start st1) st2 evs" ..
  obtain evs' where ef: "effects DB (start st1) (loop U DB records (start st1)) evs'"
    using loop_effects by blast
  have "evs' = evs" using ef ba flushed(3) by (simp add: effects_def batches_def)
  with ef flushed(3) have
    st2: "store st2 = replay DB s evs" "committed DB s evs"
    by (simp_all add: effects_def outcome_ok_def sf)
  from flush_Inr [OF fl] obtain w where
    w: "trace st = trace st2 @ w" "payloads w = (if updates st2 = [] then [] else [updates st2])"
       "progress w = []" "opened w = []"
       "store st = replay DB (store st2) w" "committed DB (store st2) w"
       "classifiers st = classifiers st2" "idx st = idx st2" "length' st = length' st2"
    by blast
  have c: "classifiers (start st1) = classifiers st" using w(7) fr(1) sf(6) by simp
  from sf(7) obtain rows where
    f1: "query DB (count_query (select_query newest lang_opt)) s = Inr rows"
    and f2: "first_length rows = Inr (length' st)"
    using w(9) fr(3) by auto
  have f4: "idx st = length records" using w(8) fr(2) by simp
  have f5: "trace st = preamble U base newest lang_opt (length' st) @ (evs @ w)"
    using w(1,9) fr(3) ba sf(1) by (simp add: batches_def)
  have f6: "payloads (evs @ w) = payloads evs @ (if updates st2 = [] then [] else [updates st2])"
    using w(2) by (simp add: payloads_append)
  have f7: "\<forall>p \<in> set (payloads evs). length p = 100" using ba by (simp add: batches_def)
  have f8: "length (updates st2) < 100" using ba by (simp add: batches_def)
  have f9: "concat (payloads evs) @ updates st2 = scored U (classifiers st) records"
    using ba c by (simp add: batches_def sf(3))
  have f10: "length (scored U (classifiers st) records)
       = length (filter (scoreable (classifiers st)) records)"
    using ba c by (simp add: batches_def)
  have f11: "length (progress (evs @ w)) = length (filter (scoreable (classifiers st)) records)"
    using ba c w(3) by (simp add: batches_def progress_append)
  have f12: "opened (evs @ w) = []" using ba w(4) by (simp add: batches_def opened_append)
  have f13: "store st = replay DB s (evs @ w)" using w(5) st2(1) by (simp add: replay_append)
  have f14: "committed DB s (evs @ w)" using w(6) st2 by (simp add: committed_append)
  have f16: "classifiers (stq\<lparr>classifiers := Map.empty\<rparr>) = Map.empty" by simp
  have f17: "classifiers st1 = classifiers st" using w(7) fr(1) by simp
  have "trace st2 = trace (start st1) @ evs" using ba by (simp add: batches_def)
  from loop_progress [OF flushed(3) this]
  have f18: "\<forall>(i, k, n, p) \<in> set (progress (evs @ w)).
      n = length' st \<and> 0 < k \<and> k \<le> length records"
    using w(3,9) fr(3) by (simp add: progress_append sf)
  show ?thesis
    by (rule that [OF f1 f2 sf(8) f4 f5 f6 f7 f8 f9 f10 f11 f12 f13 f14 flushed(2) f16 f17
          flushed(3) c f18])
qed

lemma body_succeeds:
  assumes "\<exists>a. r = Ad a \<and> (\<forall>b. classifiers st (lang a) = Some b \<longrightarrow> (\<exists>u. score U b a = Inr u))"
    and "\<forall>us s'. \<exists>s''. bulk_query DB update_query us s' = Inr s''"
  shows "\<exists>st1. body U DB r st = Inr st1"
proof (cases rule: body_cases [where r = r and st = st and U = U and DB = DB])
  case (not_ad n)
  with assms show ?thesis by simp
next
  case (skipped a)
  then show ?thesis by (simp add: body_skip)
next
  case (score_fails a b e)
  with assms show ?thesis by auto
next
  case (kept a b u)
  then show ?thesis by (simp add: body_keep)
next
  case (written a b u s)
  then show ?thesis by (simp add: body_write)
next
  case (write_fails a b u e)
  with assms(2) show ?thesis by (metis sum.distinct(1))
qed

lemma loop_succeeds:
  assumes "\<forall>r \<in> set rs. \<exists>a. r = Ad a
             \<and> (\<forall>b. classifiers st (lang a) = Some b \<longrightarrow> (\<exists>u. score U b a = Inr u))"
    and "\<forall>us s'. \<exists>s''. bulk_query DB update_query us s' = Inr s''"
  shows "\<exists>st'. loop U DB rs st = Inr st'"
  using assms(1)
proof (induction rs arbitrary: st)
  case Nil
  then show ?case by simp
next
  case (Cons r rs)
  from Cons.prems have "\<exists>a. r = Ad a
      \<and> (\<forall>b. classifiers st (lang a) = Some b \<longrightarrow> (\<exists>u. score U b a = Inr u))"
    by simp
  from body_succeeds [OF this assms(2)] obtain st1 where b: "body U DB r st = Inr st1" ..
  from body_frame [OF b] have "classifiers st1 = classifiers st" by simp
  with Cons.prems have "\<forall>r \<in> set rs. \<exists>a. r = Ad a
      \<and> (\<forall>b. classifiers st1 (lang a) = Some b \<longrightarrow> (\<exists>u. score U b a = Inr u))"
    by simp
  from Cons.IH [OF this] b show ?case by simp
qed

lemma flush_succeeds:
  assumes "\<forall>us s'. \<exists>s''. bulk_query DB update_query us s' = Inr s''"
  shows "\<exists>st'. flush DB st = Inr st'"
proof -
  from assms obtain s'' where "bulk_query DB update_query (updates st) (store st) = Inr s''"
    by blast
  then show ?thesis by (simp add: flush_def bulk_write_def Let_def)
qed

lemma classify_succeeds:
  fixes U :: "'f utilities" and DB :: "'s database" and sta stb :: "('f, 's) state"
  assumes cq: "query DB (count_query (select_query newest lang_opt)) s = Inr rows"
      "first_length rows = Inr n"
    and sel: "query DB (select_query newest lang_opt) s = Inr records"
    and ld: "load_classifiers U (confs U base) sta = Inr stb" "classifiers sta = Map.empty"
    and ok: "\<forall>r \<in> set records. \<exists>a. r = Ad a
               \<and> (\<forall>b. classifiers stb (lang a) = Some b \<longrightarrow> (\<exists>u. score U b a = Inr u))"
    and wr: "\<forall>us s'. \<exists>s''. bulk_query DB update_query us s' = Inr s''"
  shows "\<exists>st :: ('f, 's) state. classify U DB base newest lang_opt s = Inr st"
proof (cases rule: classify_cases [where U = U and DB = DB and base = base and newest = newest
      and lang_opt = lang_opt and s = s])
  case (queries_fail e st')
  with cq sel show ?thesis by (simp add: run_queries_def Let_def)
next
  case (load_fails records' stq e st')
  have "classifiers (stq\<lparr>classifiers := Map.empty\<rparr>) = classifiers sta" using ld(2) by simp
  from load_classifiers_same [OF ld(1) this] load_fails(2) show ?thesis by simp
next
  case (loop_fails records' stq st1 e st')
  have "classifiers (stq\<lparr>classifiers := Map.empty\<rparr>) = classifiers sta" using ld(2) by simp
  from load_classifiers_same [OF ld(1) this] loop_fails(2)
  have c: "classifiers st1 = classifiers stb" by simp
  from start_fields(8) [OF loop_fails(1,2)] sel have "records' = records" by simp
  with ok c have "\<forall>r \<in> set records'. \<exists>a. r = Ad a
      \<and> (\<forall>b. classifiers (start st1) (lang a) = Some b \<longrightarrow> (\<exists>u. score U b a = Inr u))"
    by (simp add: start_def)
  from loop_succeeds [OF this wr] loop_fails(3) show ?thesis by simp
next
  case (flushed records' stq st1 st2)
  with flush_succeeds [OF wr, of st2] show ?thesis by simp
qed

lemma classify_classifiers:
  fixes U :: "'f utilities" and DB :: "'s database" and st :: "('f, 's) state"
    and sta stb :: "('f, 't) state"
  assumes run: "classify U DB base newest lang_opt s = Inr st"
    and ld: "load_classifiers U (confs U base) sta = Inr stb" and e: "classifiers sta = Map.empty"
  shows "classifiers st = classifiers stb"
proof -
  from run obtain sta' stb' :: "('f, 's) state" where
    l: "load_classifiers U (confs U base) sta' = Inr stb'" "classifiers sta' = Map.empty"
       "classifiers stb' = classifiers st"
    by (rule classify_Inr)
  have "classifiers sta' = classifiers sta" using l(2) e by simp
  from load_classifiers_same [OF ld this] l(1,3) show ?thesis by simp
qed

lemma score_eq:
  "score U b a =
     (if 0 < length (proba U b a) \<and> 1 < length (proba U b a ! 0)
      then Inr \<lparr>upd_id = ad_id a, probability = proba U b a ! 0 ! 1\<rparr>
      else Inl IndexError)"
  by (simp add: score_def proba_def item_def Let_def)

lemma score_Inr:
  assumes "score U b a = Inr u"
  shows "u = \<lparr>upd_id = ad_id a, probability = proba U b a ! 0 ! 1\<rparr>"
    and "0 < length (proba U b a)" and "1 < length (proba U b a ! 0)"
  using assms by (simp_all add: score_eq split: if_splits)

lemma loop_scored:
  assumes "loop U DB rs st = Inr st'"
  shows "scored U (classifiers st) rs
           = map (\<lambda>(a, b). \<lparr>upd_id = ad_id a, probability = proba U b a ! 0 ! 1\<rparr>)
               (scoreable_ads (classifiers st) rs)
         \<and> (\<forall>(a, b) \<in> set (scoreable_ads (classifiers st) rs).
               0 < length (proba U b a) \<and> 1 < length (proba U b a ! 0))"
  using assms
proof (induction rs arbitrary: st)
  case Nil
  then show ?case by simp
next
  case (Cons r rs)
  then obtain st1 where b: "body U DB r st = Inr st1" and l: "loop U DB rs st1 = Inr st'"
    by (auto split: sum.splits)
  from body_frame [OF b] have c: "classifiers st1 = classifiers st" by simp
  note ih = Cons.IH [OF l, unfolded c]
  show ?case
  proof (cases rule: body_cases [where r = r and st = st and U = U and DB = DB])
    case (not_ad n)
    with b show ?thesis by (simp add: body_Length)
  next
    case (skipped a)
    with ih show ?thesis by simp
  next
    case (score_fails a b e)
    with b show ?thesis by (simp add: body_score_fails)
  next
    case (kept a b u)
    with ih score_Inr [OF kept(3)] show ?thesis by simp
  next
    case (written a b u s)
    with ih score_Inr [OF written(3)] show ?thesis by simp
  next
    case (write_fails a b' u e)
    with b show ?thesis by (simp add: body_write_fails)
  qed
qed

lemma scoreable_ads_member: "(a, b) \<in> set (scoreable_ads cls rs) \<Longrightarrow> cls (lang a) = Some b"
  by (induction cls rs rule: scoreable_ads.induct) (auto split: option.splits)

section \<open>Statements read by the database\<close>

lemma sql_bulk_succeeds: "\<forall>us s'. \<exists>s''. bulk_query sql_db update_query us s' = Inr s''"
  by (simp add: sql_db_def sql_bulk_query_def)

lemma count_inner_count: "count_inner (count_query q) = Some q"
  by (simp add: count_query_def count_inner_def strip_suffix_def)

lemma count_inner_select: "count_inner (select_query newest lang_opt) = None"
  by (cases newest; cases lang_opt) (simp_all add: select_query_def count_inner_def Let_def)

lemma select_where_newest: "select_where (select_query True None) = Some [[Unscored]]"
  by (simp add: select_query_def select_where_def conds.simps atom_def)

lemma select_where_every: "select_where (select_query False None) = Some [[]]"
  by (simp add: select_query_def select_where_def)

lemma replay_sql:
  "committed sql_db tbl evs \<Longrightarrow> replay sql_db tbl evs = fold apply_update (concat (payloads evs)) tbl"
proof (induction evs arbitrary: tbl)
  case Nil
  then show ?case by simp
next
  case (Cons ev evs)
  show ?case
  proof (cases ev)
    case (Bulk_query q us)
    with Cons.prems have q: "q = update_query"
      and c: "committed sql_db (fold apply_update us tbl) evs"
      by (auto simp: sql_db_def sql_bulk_query_def split: if_splits)
    from Cons.IH [OF c] Bulk_query q show ?thesis
      by (simp add: sql_db_def sql_bulk_query_def)
  qed (use Cons in simp_all)
qed

lemma scoreable_ads_rows:
  "scoreable_ads cls (map Ad xs)
     = map (\<lambda>a. (a, the (cls (lang a)))) (filter (\<lambda>a. cls (lang a) \<noteq> None) xs)"
  by (induction xs) (auto split: option.splits)

text \<open>A run on \<open>sql_db\<close> that ends normally.\<close>

lemma sql_run:
  fixes U :: "'f utilities" and st :: "('f, ad list) state"
  assumes run: "classify U sql_db base newest lang_opt tbl = Inr st"
  obtains cs evs where
    "select_where (select_query newest lang_opt) = Some cs"
    "query sql_db (select_query newest lang_opt) tbl = Inr (map Ad (matching cs tbl))"
    "query sql_db (count_query (select_query newest lang_opt)) tbl
       = Inr [Length (length (matching cs tbl))]"
    "length' st = length (matching cs tbl)" "idx st = length (matching cs tbl)"
    "trace st = preamble U base newest lang_opt (length' st) @ evs"
    "concat (payloads evs) = map (update_for U (classifiers st)) (scoreable_rows (classifiers st) cs tbl)"
    "\<forall>a \<in> set (scoreable_rows (classifiers st) cs tbl).
       score U (the (classifiers st (lang a))) a = Inr (update_for U (classifiers st) a)"
    "store st = fold apply_update (concat (payloads evs)) tbl"
    "length (progress evs) = length (scoreable_rows (classifiers st) cs tbl)"
    "\<forall>(i, k, n, p) \<in> set (progress evs).
       n = length (matching cs tbl) \<and> 0 < k \<and> k \<le> length (matching cs tbl)"
proof -
  let ?q = "select_query newest lang_opt"
  let ?cls = "classifiers st"
  from run obtain rows records ps b evs and stl stm :: "('f, ad list) state" where
    f: "query sql_db (count_query ?q) tbl = Inr rows" "first_length rows = Inr (length' st)"
       "query sql_db ?q tbl = Inr records" "idx st = length records"
       "trace st = preamble U base newest lang_opt (length' st) @ evs"
       "payloads evs = ps @ (if b = [] then [] else [b])"
       "concat ps @ b = scored U ?cls records"
       "length (progress evs) = length (filter (scoreable ?cls) records)"
       "store st = replay sql_db tbl evs" "committed sql_db tbl evs"
       "loop U sql_db records stl = Inr stm" "classifiers stl = ?cls"
       "\<forall>(i, k, n, p) \<in> set (progress evs). n = length' st \<and> 0 < k \<and> k \<le> length records"
    by (rule classify_Inr)
  from f(3) obtain cs where cs: "select_where ?q = Some cs"
    and rec: "records = map Ad (matching cs tbl)"
    by (auto simp: sql_db_def sql_query_def count_inner_select split: option.splits)
  from f(1) cs have rows: "rows = [Length (length (matching cs tbl))]"
    by (simp add: sql_db_def sql_query_def count_inner_count)
  with f(2) have n: "length' st = length (matching cs tbl)"
    by (simp add: first_length_def item_def)
  have "concat (payloads evs) = concat ps @ b"
    using f(6) by (cases "b = []") simp_all
  with f(7) have 1: "concat (payloads evs) = scored U ?cls records" by simp
  note ls = loop_scored [OF f(11), unfolded f(12) rec scoreable_ads_rows]
  have 2: "concat (payloads evs) = map (update_for U ?cls) (scoreable_rows ?cls cs tbl)"
    using 1 ls rec by (simp add: scoreable_rows_def update_for_def o_def)
  have 3: "\<forall>a \<in> set (scoreable_rows ?cls cs tbl).
       score U (the (?cls (lang a))) a = Inr (update_for U ?cls a)"
    using ls by (auto simp: scoreable_rows_def update_for_def score_eq)
  have 4: "length (progress evs) = length (scoreable_rows ?cls cs tbl)"
    using f(8) rec by (simp add: scoreable_rows_def scoreable_def filter_map o_def)
  have 5: "\<forall>(i, k, n, p) \<in> set (progress evs).
       n = length (matching cs tbl) \<and> 0 < k \<and> k \<le> length (matching cs tbl)"
    using f(13) n rec by simp
  show ?thesis
    using that [OF cs _ _ n _ f(5) 2 3 _ 4 5] f(1,3,4,9,10) rows rec replay_sql
    by simp
qed

section \<open>An example run\<close>

lemma demo_load:
  "load_classifiers demo_U (confs demo_U ''models'') (init demo_ads :: (nat, ad list) state)
     = Inr ((init demo_ads)\<lparr>trace := [Open_file ''models/en/classifier.dill''],
          classifiers := [''en'' \<mapsto> demo_bundle]\<rparr>)"
  by (simp add: demo_U_def init_def emit_def demo_bundle_def)

lemma demo_score: "score demo_U demo_bundle a = Inr \<lparr>upd_id = ad_id a, probability = 3 / 4\<rparr>"
  by (simp add: score_def item_def demo_bundle_def)

lemma length_demo_ids: "length demo_ids = 250"
  by (simp only: demo_ids_def length_upt)

lemma demo_matching: "matching [[Unscored]] demo_ads = demo_ads"
  by (simp add: matching_def selects_def demo_ads_def demo_ad_def)

lemma demo_stream: "query sql_db (select_query True None) demo_ads = Inr (map Ad demo_ads)"
  by (simp add: sql_db_def sql_query_def count_inner_select select_where_newest demo_matching)

lemma demo_scoreable:
  "filter (scoreable [''en'' \<mapsto> b]) (map Ad demo_ads) = map (Ad \<circ> demo_ad ''en'') demo_ids"
  by (simp add: demo_ads_def demo_ad_def scoreable_def filter_map o_def)

lemma demo_run:
  obtains st :: "(nat, ad list) state" where
    "classify demo_U sql_db ''models'' True None demo_ads = Inr st"
    "classifiers st = [''en'' \<mapsto> demo_bundle]"
proof -
  let ?stb = "(init demo_ads :: (nat, ad list) state)
      \<lparr>trace := [Open_file ''models/en/classifier.dill''], classifiers := [''en'' \<mapsto> demo_bundle]\<rparr>"
  have cq: "query sql_db (count_query (select_query True None)) demo_ads = Inr [Length 251]"
    by (simp add: sql_db_def sql_query_def count_inner_count select_where_newest demo_matching)
       (simp add: demo_ads_def length_demo_ids)
  have fl: "first_length [Length 251] = Inr 251"
    by (simp add: first_length_def item_def)
  have e: "classifiers (init demo_ads :: (nat, ad list) state) = Map.empty"
    by (simp add: init_def)
  have ok: "\<forall>r \<in> set (map Ad demo_ads). \<exists>a. r = Ad a
      \<and> (\<forall>b. classifiers ?stb (lang a) = Some b \<longrightarrow> (\<exists>u. score demo_U b a = Inr u))"
    by (auto simp: demo_score)
  from classify_succeeds [OF cq fl demo_stream demo_load e ok sql_bulk_succeeds]
  obtain st :: "(nat, ad list) state" where
    run: "classify demo_U sql_db ''models'' True None demo_ads = Inr st" ..
  from classify_classifiers [OF run demo_load e]
  have "classifiers st = [''en'' \<mapsto> demo_bundle]" by simp
  with run show ?thesis by (rule that)
qed

section \<open>Any run\<close>

lemma run_queries_Inl_updates:
  assumes "run_queries DB q st = Inl (e, st')"
  shows "updates st' = updates st"
  using assms by (auto simp: run_queries_def Let_def split: sum.splits)

lemma load_classifiers_Inl_updates:
  assumes "load_classifiers U cs st = Inl (e, st')"
  shows "updates st' = updates st"
  using assms
proof (induction cs arbitrary: st)
  case Nil
  then show ?case by simp
next
  case (Cons dc cs)
  obtain directory conf where dc: "dc = (directory, conf)" by (cases dc)
  let ?st = "emit (Open_file (classifier_path U directory)) st"
  from Cons.prems dc consider "st' = ?st"
    | c v l where "load_classifiers U cs
          (?st\<lparr>classifiers := (classifiers st)(l \<mapsto> \<lparr>classifier = c, vectorizer = v\<rparr>)\<rparr>) = Inl (e, st')"
    by (auto simp: Let_def split: sum.splits option.splits)
  then show ?case
  proof cases
    case 1
    then show ?thesis by simp
  next
    case 2
    from Cons.IH [OF 2] show ?thesis by simp
  qed
qed

lemma load_classifiers_Inr_ok:
  assumes "load_classifiers U cs st = Inr st'"
  shows "\<forall>c \<in> set cs. \<not> bundle_fails U c"
  using assms
proof (induction cs arbitrary: st)
  case Nil
  then show ?case by simp
next
  case (Cons dc cs)
  obtain directory conf where dc: "dc = (directory, conf)" by (cases dc)
  from Cons.prems dc obtain c v l where
    d: "dill_load U (classifier_path U directory) = Inr c" "get_vectorizer U conf = Inr v"
       "conf ''language'' = Some l"
    and l: "load_classifiers U cs
          ((emit (Open_file (classifier_path U directory)) st)
             \<lparr>classifiers := (classifiers st)(l \<mapsto> \<lparr>classifier = c, vectorizer = v\<rparr>)\<rparr>) = Inr st'"
    by (auto simp: Let_def split: sum.splits option.splits)
  from d dc have "\<not> bundle_fails U dc" by (simp add: bundle_fails_def)
  with Cons.IH [OF l] show ?case by simp
qed

lemma flush_any:
  "\<exists>w. trace (final (flush DB st)) = trace st @ w
      \<and> payloads w = (if updates st = [] then [] else [updates st])
      \<and> opened w = [] \<and> updates (final (flush DB st)) = updates st"
proof (cases "updates st = []")
  case True
  then show ?thesis by (intro exI [of _ "[]"]) (simp add: flush_def)
next
  case False
  then show ?thesis
    by (intro exI [of _ "[Bulk_query update_query (updates st)]"])
       (simp add: flush_def bulk_write_def Let_def split: sum.splits)
qed

lemma outcome_ok_quiet:
  assumes "outcome_ok DB s out evs" and "payloads pre = []"
  shows "outcome_ok DB s out (pre @ evs)"
proof -
  note q = replay_quiet [OF assms(2), of DB s] committed_quiet [OF assms(2), of DB s]
  have c: "committed DB s evs \<Longrightarrow> committed DB s (pre @ evs)"
    by (simp add: committed_append q)
  have w: "write_failed DB s e evs \<Longrightarrow> write_failed DB s e (pre @ evs)" for e
  proof -
    assume "write_failed DB s e evs"
    then obtain p q' us where p: "evs = p @ [Bulk_query q' us]" "committed DB s p"
        "bulk_query DB q' us (replay DB s p) = Inl e"
      unfolding write_failed_def by blast
    have "pre @ evs = (pre @ p) @ [Bulk_query q' us]" using p(1) by simp
    moreover have "committed DB s (pre @ p)" using p(2) by (simp add: committed_append q)
    moreover have "bulk_query DB q' us (replay DB s (pre @ p)) = Inl e"
      using p(3) by (simp add: replay_append q)
    ultimately show ?thesis unfolding write_failed_def by blast
  qed
  show ?thesis
  proof (cases out)
    case (Inr st)
    with assms(1) c show ?thesis by (simp add: outcome_ok_def)
  next
    case (Inl x)
    obtain e st where "x = (e, st)" by (cases x)
    with Inl assms(1) c w show ?thesis by (auto simp: outcome_ok_def)
  qed
qed

lemma classify_any:
  fixes U :: "'f utilities" and DB :: "'s database" and base :: string and newest :: bool
    and lang_opt :: "string option" and s :: 's
  defines "out \<equiv> classify U DB base newest lang_opt s"
  obtains pre evs where
    "trace (final out) = pre @ evs" "payloads pre = []" "progress pre = []" "opened evs = []"
    "store (final out) = replay DB s evs" "outcome_ok DB s out evs"
    "\<forall>p \<in> set (payloads evs). 1 \<le> length p \<and> length p \<le> 100"
    "length (updates (final out)) \<le> 100"
    "evs = [] \<or> (opened pre = paths U (confs U base) \<and> (\<forall>c \<in> set (confs U base). \<not> bundle_fails U c))"
    "(\<exists>c \<in> set (confs U base). bundle_fails U c) \<longrightarrow> evs = [] \<and> (\<exists>e st. out = Inl (e, st))"
proof (cases rule: classify_cases [where U = U and DB = DB and base = base and newest = newest
      and lang_opt = lang_opt and s = s])
  case (queries_fail e st')
  note o = queries_fail(2) [folded out_def]
  from run_queries_Inl [OF queries_fail(1)] obtain qs where
    q: "quiet (begin_run newest s) st' qs" by blast
  have u: "updates st' = []"
    using run_queries_Inl_updates [OF queries_fail(1)] by (simp add: begin_run_def init_def)
  show ?thesis
  proof (rule that [of "trace st'" "[]"])
    show "trace (final out) = trace st' @ []" using o by simp
    show "payloads (trace st') = []" "progress (trace st') = []"
      using q by (simp_all add: quiet_def payloads_append progress_append)
    show "store (final out) = replay DB s []" using o q by (simp add: quiet_def)
    show "outcome_ok DB s out []" using o by (simp add: outcome_ok_def)
    show "length (updates (final out)) \<le> 100" using o u by simp
    show "(\<exists>c \<in> set (confs U base). bundle_fails U c) \<longrightarrow> [] = [] \<and> (\<exists>e st. out = Inl (e, st))"
      using o by simp
  qed simp_all
next
  case (load_fails records stq e st')
  note o = load_fails(3) [folded out_def]
  from run_queries_Inr [OF load_fails(1)] have
    stq: "trace stq = [Print (mode_line newest), Query (count_query (select_query newest lang_opt)),
        Query (select_query newest lang_opt)]" "store stq = s" "updates stq = []"
    by (auto simp: begin_run_def init_def)
  from load_classifiers_Inl [OF load_fails(2)] obtain ps where
    l: "trace st' = trace stq @ map Open_file ps" "store st' = s"
    using stq by auto
  have u: "updates st' = []"
    using load_classifiers_Inl_updates [OF load_fails(2)] stq by simp
  show ?thesis
  proof (rule that [of "trace st'" "[]"])
    show "trace (final out) = trace st' @ []" using o by simp
    show "payloads (trace st') = []" "progress (trace st') = []"
      using l stq by (simp_all add: payloads_append progress_append)
    show "store (final out) = replay DB s []" using o l by simp
    show "outcome_ok DB s out []" using o by (simp add: outcome_ok_def)
    show "length (updates (final out)) \<le> 100" using o u by simp
    show "(\<exists>c \<in> set (confs U base). bundle_fails U c) \<longrightarrow> [] = [] \<and> (\<exists>e st. out = Inl (e, st))"
      using o by simp
  qed simp_all
next
  case (loop_fails records stq st1 e st')
  note o = loop_fails(4) [folded out_def]
  note sf = start_fields [OF loop_fails(1,2)]
  have "length (updates (start st1)) < 100" by (simp add: sf)
  from loop_bounded [OF this, of U DB records] obtain evs where
    b: "bounded (start st1) (Inl (e, st')) evs" using loop_fails(3) by auto
  obtain evs' where ef: "effects DB (start st1) (Inl (e, st')) evs'"
    using loop_effects [of DB "start st1" U records] loop_fails(3) by auto
  have "evs' = evs" using ef b by (simp add: effects_def bounded_def)
  note ef = ef [unfolded this]
  show ?thesis
  proof (rule that [of "preamble U base newest lang_opt (length' st1)" evs])
    show "trace (final out) = preamble U base newest lang_opt (length' st1) @ evs"
      using o b sf(1) by (simp add: bounded_def)
    show "opened evs = []" using b by (simp add: bounded_def)
    show "store (final out) = replay DB s evs" using o ef sf(2) by (simp add: effects_def)
    show "outcome_ok DB s out evs" using o ef sf(2) by (simp add: effects_def outcome_ok_def)
    show "\<forall>p \<in> set (payloads evs). 1 \<le> length p \<and> length p \<le> 100"
      using b by (simp add: bounded_def)
    show "length (updates (final out)) \<le> 100" using o b by (simp add: bounded_def)
    show "evs = [] \<or> (opened (preamble U base newest lang_opt (length' st1)) = paths U (confs U base)
        \<and> (\<forall>c \<in> set (confs U base). \<not> bundle_fails U c))"
      using load_classifiers_Inr_ok [OF loop_fails(2)] by simp
    show "(\<exists>c \<in> set (confs U base). bundle_fails U c) \<longrightarrow> evs = [] \<and> (\<exists>e st. out = Inl (e, st))"
      using load_classifiers_Inr_ok [OF loop_fails(2)] by blast
  qed simp_all
next
  case (flushed records stq st1 st2)
  note o = flushed(4) [folded out_def]
  note sf = start_fields [OF flushed(1,2)]
  have "length (updates (start st1)) < 100" by (simp add: sf)
  from loop_bounded [OF this, of U DB records] obtain evs where
    b: "bounded (start st1) (Inr st2) evs" using flushed(3) by auto
  obtain evs' where ef: "effects DB (start st1) (Inr st2) evs'"
    using loop_effects [of DB "start st1" U records] flushed(3) by auto
  have "evs' = evs" using ef b by (simp add: effects_def bounded_def)
  note ef = ef [unfolded this]
  obtain w where w: "trace (final (flush DB st2)) = trace st2 @ w"
      "payloads w = (if updates st2 = [] then [] else [updates st2])"
      "opened w = []" "updates (final (flush DB st2)) = updates st2"
    using flush_any [of DB st2] by blast
  obtain w' where fe: "effects DB st2 (flush DB st2) w'"
    using flush_effects [of DB st2] by blast
  have "w' = w" using fe w(1) by (simp add: effects_def)
  note fe = fe [unfolded this]
  note all = effects_trans [OF ef fe]
  have u2: "length (updates st2) < 100" using b by (simp add: bounded_def)
  show ?thesis
  proof (rule that [of "preamble U base newest lang_opt (length' st1)" "evs @ w"])
    show "trace (final out) = preamble U base newest lang_opt (length' st1) @ evs @ w"
      using o b w(1) sf(1) by (simp add: bounded_def)
    show "opened (evs @ w) = []" using b w(3) by (simp add: bounded_def opened_append)
    show "store (final out) = replay DB s (evs @ w)" using o all sf(2) by (simp add: effects_def)
    show "outcome_ok DB s out (evs @ w)" using o all sf(2) by (simp add: effects_def)
    show "\<forall>p \<in> set (payloads (evs @ w)). 1 \<le> length p \<and> length p \<le> 100"
      using b w(2) u2 by (auto simp: bounded_def payloads_append Suc_leI split: if_splits)
    show "length (updates (final out)) \<le> 100" using o w(4) u2 by simp
    show "evs @ w = [] \<or> (opened (preamble U base newest lang_opt (length' st1)) = paths U (confs U base)
        \<and> (\<forall>c \<in> set (confs U base). \<not> bundle_fails U c))"
      using load_classifiers_Inr_ok [OF flushed(2)] by simp
    show "(\<exists>c \<in> set (confs U base). bundle_fails U c) \<longrightarrow> evs @ w = [] \<and> (\<exists>e st. out = Inl (e, st))"
      using load_classifiers_Inr_ok [OF flushed(2)] by blast
  qed simp_all
qed

section \<open>Batches\<close>

lemma concat_hundreds: "\<forall>p \<in> set ps. length p = 100 \<Longrightarrow> length (concat ps) = 100 * length ps"
  by (induction ps) simp_all

lemma map_length_hundreds:
  "\<forall>p \<in> set ps. length p = 100 \<Longrightarrow> map length ps = replicate (length ps) 100"
  by (induction ps) simp_all

lemma batch_sizes:
  fixes ps :: "'a list list"
  assumes h: "\<forall>p \<in> set ps. length p = 100" and b: "length b < 100"
    and n: "length (concat ps @ b) = N"
  shows "map length (ps @ (if b = [] then [] else [b]))
       = replicate (N div 100) 100 @ (if N mod 100 = 0 then [] else [N mod 100])"
    and "length (ps @ (if b = [] then [] else [b])) = (N + 99) div 100"
proof -
  have N: "N = 100 * length ps + length b"
    using n concat_hundreds [OF h] by simp
  with b have d: "N div 100 = length ps" and m: "N mod 100 = length b"
    by simp_all
  show "map length (ps @ (if b = [] then [] else [b]))
       = replicate (N div 100) 100 @ (if N mod 100 = 0 then [] else [N mod 100])"
    using map_length_hundreds [OF h] by (simp add: d m)
  have "(N + 99) div 100 = length ps + (if b = [] then 0 else 1)"
  proof (cases "b = []")
    case True
    with N show ?thesis by simp
  next
    case False
    then have "0 < length b" by simp
    with b N have "N + 99 = 100 * (length ps + 1) + (length b - 1)" "length b - 1 < 100"
      by simp_all
    then have "(N + 99) div 100 = length ps + 1"
      by (metis div_mult_self2 div_less add.commute add_cancel_left_left zero_neq_numeral)
    with False show ?thesis by simp
  qed
  then show "length (ps @ (if b = [] then [] else [b])) = (N + 99) div 100"
    by simp
qed

text \<open>
  C1. In a run that ends normally, with \<open>N\<close> scoreable records in the stream, the bulk
  writes have 100 updates each, but for a last one of \<open>N mod 100\<close> updates when 100 does
  not divide \<open>N\<close>: there are \<open>ceil (N / 100)\<close> of them, and none when \<open>N = 0\<close>.
\<close>

theorem batch_boundary:
  assumes run: "classify U DB base newest lang_opt s = Inr st"
    and stream: "query DB (select_query newest lang_opt) s = Inr records"
    and N: "N = length (filter (scoreable (classifiers st)) records)"
  shows "map length (payloads (trace st))
           = replicate (N div 100) 100 @ (if N mod 100 = 0 then [] else [N mod 100])
         \<and> length (payloads (trace st)) = (N + 99) div 100
         \<and> (payloads (trace st) = []) = (N = 0)"
proof -
  from run obtain records' ps b evs where
    r: "query DB (select_query newest lang_opt) s = Inr records'"
    and t: "trace st = preamble U base newest lang_opt (length' st) @ evs"
    and p: "payloads evs = ps @ (if b = [] then [] else [b])"
    and h: "\<forall>p \<in> set ps. length p = 100" and b: "length b < 100"
    and c: "concat ps @ b = scored U (classifiers st) records'"
    and n: "length (scored U (classifiers st) records')
       = length (filter (scoreable (classifiers st)) records')"
    by (rule classify_Inr)
  from r stream have "records' = records" by simp
  with c n N have l: "length (concat ps @ b) = N" by simp
  have pt: "payloads (trace st) = ps @ (if b = [] then [] else [b])"
    using t p by (simp add: payloads_append)
  note s = batch_sizes [OF h b l]
  have "(payloads (trace st) = []) = (N = 0)"
  proof -
    have "(payloads (trace st) = []) = (length (payloads (trace st)) = 0)" by simp
    also have "\<dots> = ((N + 99) div 100 = 0)" using s(2) pt by simp
    also have "\<dots> = (N = 0)" by (simp add: div_eq_0_iff)
    finally show ?thesis .
  qed
  with s pt show ?thesis by simp
qed

text \<open>
  The example of the specification: 250 unscored English records and a record in a
  language with no classifier give three bulk writes, of 100, 100 and 50 updates.
\<close>

theorem batch_boundary_witness:
  "\<exists>st :: (nat, ad list) state. classify demo_U sql_db ''models'' True None demo_ads = Inr st
      \<and> map length (payloads (trace st)) = [100, 100, 50]"
proof -
  obtain st :: "(nat, ad list) state" where
    run: "classify demo_U sql_db ''models'' True None demo_ads = Inr st"
    and c: "classifiers st = [''en'' \<mapsto> demo_bundle]"
    by (rule demo_run)
  have N: "250 = length (filter (scoreable (classifiers st)) (map Ad demo_ads))"
    by (simp add: c demo_scoreable length_demo_ids)
  from batch_boundary [OF run demo_stream N]
  have "map length (payloads (trace st)) = [100, 100, 50]"
    by (simp add: numeral_2_eq_2)
  with run show ?thesis by (intro exI [of _ st] conjI)
qed

section \<open>The probability written\<close>

text \<open>
  C4. In a run that ends normally the updates written are, in the order of the stream,
  one for each scoreable record: its id, with the element at row 0, column 1 of what
  \<^verbatim>\<open>predict_proba\<close> returns for the vectorized text of the record, as it is. That element
  exists for each of them. When the classifiers return probabilities, numbers between 0
  and 1, every probability written is between 0 and 1.
\<close>

theorem probability_written:
  assumes run: "classify U DB base newest lang_opt s = Inr st"
    and stream: "query DB (select_query newest lang_opt) s = Inr records"
  shows "concat (payloads (trace st))
           = map (\<lambda>(a, b). \<lparr>upd_id = ad_id a,
                   probability = classifier b (vectorizer b [get_text U (html a)]) ! 0 ! 1\<rparr>)
               (scoreable_ads (classifiers st) records)
         \<and> (\<forall>(a, b) \<in> set (scoreable_ads (classifiers st) records).
               0 < length (classifier b (vectorizer b [get_text U (html a)]))
               \<and> 1 < length (classifier b (vectorizer b [get_text U (html a)]) ! 0))
         \<and> ((\<forall>l b x. classifiers st l = Some b \<longrightarrow>
                 (\<forall>r \<in> set (classifier b x). \<forall>p \<in> set r. 0 \<le> p \<and> p \<le> 1))
              \<longrightarrow> (\<forall>u \<in> set (concat (payloads (trace st))).
                     0 \<le> probability u \<and> probability u \<le> 1))"
proof -
  from run obtain records' ps b evs and stl stm :: "('a, 'b) state" where
    r: "query DB (select_query newest lang_opt) s = Inr records'"
    and t: "trace st = preamble U base newest lang_opt (length' st) @ evs"
    and p: "payloads evs = ps @ (if b = [] then [] else [b])"
    and c: "concat ps @ b = scored U (classifiers st) records'"
    and l: "loop U DB records' stl = Inr stm" "classifiers stl = classifiers st"
    by (rule classify_Inr)
  from r stream have rr: "records' = records" by simp
  have "concat (payloads (trace st)) = concat ps @ b"
    using t p by (cases "b = []") (simp_all add: payloads_append)
  with c rr have w: "concat (payloads (trace st)) = scored U (classifiers st) records"
    by simp
  note ls = loop_scored [OF l(1), unfolded l(2) rr]
  let ?f = "\<lambda>(a, b). \<lparr>upd_id = ad_id a,
      probability = classifier b (vectorizer b [get_text U (html a)]) ! 0 ! 1\<rparr>"
  let ?xs = "scoreable_ads (classifiers st) records"
  have 1: "concat (payloads (trace st)) = map ?f ?xs"
    using w ls by (simp add: proba_def)
  have 2: "\<forall>(a, b) \<in> set ?xs.
      0 < length (classifier b (vectorizer b [get_text U (html a)]))
      \<and> 1 < length (classifier b (vectorizer b [get_text U (html a)]) ! 0)"
    using ls by (simp add: proba_def)
  note m = scoreable_ads_member [of _ _ "classifiers st" records]
  have 3: "\<forall>u \<in> set (concat (payloads (trace st))). 0 \<le> probability u \<and> probability u \<le> 1"
    if h: "\<forall>l b x. classifiers st l = Some b \<longrightarrow>
        (\<forall>r \<in> set (classifier b x). \<forall>p \<in> set r. 0 \<le> p \<and> p \<le> 1)"
  proof
    fix u assume "u \<in> set (concat (payloads (trace st)))"
    with 1 obtain a b where ab: "(a, b) \<in> set ?xs" and u: "u = ?f (a, b)"
      by auto
    let ?out = "classifier b (vectorizer b [get_text U (html a)])"
    from 2 ab have len: "0 < length ?out" "1 < length (?out ! 0)" by auto
    then have "?out ! 0 \<in> set ?out" "?out ! 0 ! 1 \<in> set (?out ! 0)"
      by simp_all
    with h m [OF ab] have "0 \<le> ?out ! 0 ! 1 \<and> ?out ! 0 ! 1 \<le> 1" by blast
    with u show "0 \<le> probability u \<and> probability u \<le> 1" by simp
  qed
  from 1 2 3 show ?thesis by blast
qed

lemma demo_scoreable_ads:
  "scoreable_ads [''en'' \<mapsto> b] (map Ad (map (demo_ad ''en'') is @ [demo_ad ''xx'' k]))
     = map (\<lambda>i. (demo_ad ''en'' i, b)) is"
  by (induction "is") (simp_all add: demo_ad_def)

text \<open>
  In the example every update written carries the second entry, \<open>3 / 4\<close>, of the row
  the classifier returns.
\<close>

theorem probability_written_witness:
  "\<exists>st :: (nat, ad list) state. classify demo_U sql_db ''models'' True None demo_ads = Inr st
      \<and> concat (payloads (trace st)) = map (\<lambda>i. \<lparr>upd_id = i, probability = 3 / 4\<rparr>) demo_ids
      \<and> (\<forall>u \<in> set (concat (payloads (trace st))). 0 \<le> probability u \<and> probability u \<le> 1)"
proof -
  obtain st :: "(nat, ad list) state" where
    run: "classify demo_U sql_db ''models'' True None demo_ads = Inr st"
    and c: "classifiers st = [''en'' \<mapsto> demo_bundle]"
    by (rule demo_run)
  note w = probability_written [OF run demo_stream]
  have p: "\<forall>l b x. classifiers st l = Some b \<longrightarrow>
      (\<forall>r \<in> set (classifier b x). \<forall>p \<in> set r. 0 \<le> p \<and> p \<le> 1)"
    by (auto simp: c demo_bundle_def split: if_splits)
  have sa: "scoreable_ads (classifiers st) (map Ad demo_ads)
      = map (\<lambda>i. (demo_ad ''en'' i, demo_bundle)) demo_ids"
    unfolding c demo_ads_def by (rule demo_scoreable_ads)
  from w have "concat (payloads (trace st))
      = map (\<lambda>(a, b). \<lparr>upd_id = ad_id a,
                   probability = classifier b (vectorizer b [get_text demo_U (html a)]) ! 0 ! 1\<rparr>)
          (scoreable_ads (classifiers st) (map Ad demo_ads))"
    by (rule conjunct1)
  then have 1: "concat (payloads (trace st))
      = map (\<lambda>i. \<lparr>upd_id = i, probability = 3 / 4\<rparr>) demo_ids"
    unfolding sa by (simp add: o_def demo_bundle_def demo_ad_def)
  from w p have "\<forall>u \<in> set (concat (payloads (trace st))). 0 \<le> probability u \<and> probability u \<le> 1"
    by blast
  with run 1 show ?thesis by (intro exI [of _ st] conjI)
qed

section \<open>The buffer\<close>

lemma run_payloads_nonempty:
  assumes run: "classify U DB base newest lang_opt s = Inr st"
    and stream: "query DB (select_query newest lang_opt) s = Inr records"
    and some: "filter (scoreable (classifiers st)) records \<noteq> []"
  shows "payloads (trace st) \<noteq> []"
proof -
  from run obtain records' ps b evs where
    r: "query DB (select_query newest lang_opt) s = Inr records'"
    and t: "trace st = preamble U base newest lang_opt (length' st) @ evs"
    and p: "payloads evs = ps @ (if b = [] then [] else [b])"
    and c: "concat ps @ b = scored U (classifiers st) records'"
    and n: "length (scored U (classifiers st) records')
       = length (filter (scoreable (classifiers st)) records')"
    by (rule classify_Inr)
  from r stream have "records' = records" by simp
  with n some have "scored U (classifiers st) records' \<noteq> []" by auto
  with c have "ps \<noteq> [] \<or> b \<noteq> []" by auto
  with p have "payloads evs \<noteq> []" by auto
  with t show ?thesis by (simp add: payloads_append)
qed

lemma demo_payloads:
  assumes "classify demo_U sql_db ''models'' True None demo_ads = Inr st"
    and "classifiers st = [''en'' \<mapsto> demo_bundle]"
  shows "payloads (trace st) \<noteq> []"
proof -
  have "length (filter (scoreable (classifiers st)) (map Ad demo_ads)) = 250"
    by (simp add: assms(2) demo_scoreable length_demo_ids)
  then have "filter (scoreable (classifiers st)) (map Ad demo_ads) \<noteq> []"
    by (metis list.size(3) zero_neq_numeral)
  from run_payloads_nonempty [OF assms(1) demo_stream this] show ?thesis .
qed

text \<open>
  C9. However a run ends, its buffer holds at most 100 updates at the end and each of
  its bulk writes carries between 1 and 100 updates. The same bound holds at every point
  on the way: the loop, entered with an empty buffer as \<^verbatim>\<open>classify\<close> enters it, has at
  most 100 updates in the buffer after any number \<open>k\<close> of records, whether it stopped on
  an exception there or went on.
\<close>

theorem buffer_bounded:
  "length (updates (final (classify U DB base newest lang_opt s))) \<le> 100
   \<and> (\<forall>p \<in> set (payloads (trace (final (classify U DB base newest lang_opt s)))).
         1 \<le> length p \<and> length p \<le> 100)
   \<and> (updates st = [] \<longrightarrow>
         (\<forall>k. length (updates (final (loop U DB (take k records) st))) \<le> 100))"
proof -
  obtain pre evs where
    t: "trace (final (classify U DB base newest lang_opt s)) = pre @ evs" "payloads pre = []"
    and p: "\<forall>p \<in> set (payloads evs). 1 \<le> length p \<and> length p \<le> 100"
    and u: "length (updates (final (classify U DB base newest lang_opt s))) \<le> 100"
    by (rule classify_any [of U DB base newest lang_opt s])
  have 2: "\<forall>p \<in> set (payloads (trace (final (classify U DB base newest lang_opt s)))).
      1 \<le> length p \<and> length p \<le> 100"
    using t p by (simp add: payloads_append)
  have 3: "length (updates (final (loop U DB (take k records) st))) \<le> 100"
    if "updates st = []" for k
  proof -
    from that have "length (updates st) < 100" by simp
    from loop_bounded [OF this, of U DB "take k records"] show ?thesis
      by (auto simp: bounded_def)
  qed
  from u 2 3 show ?thesis by blast
qed

text \<open>
  In the example the run ends with no exception, it has written, and each of its writes
  is within the bounds; so is the buffer after the first 150 records.
\<close>

theorem buffer_bounded_witness:
  "\<exists>(st :: (nat, ad list) state) p.
      classify demo_U sql_db ''models'' True None demo_ads = Inr st
      \<and> length (updates st) \<le> 100
      \<and> p \<in> set (payloads (trace st)) \<and> 1 \<le> length p \<and> length p \<le> 100
      \<and> updates (init demo_ads :: (nat, ad list) state) = []
      \<and> length (updates (final (loop demo_U sql_db (take 150 (map Ad demo_ads))
                 (init demo_ads :: (nat, ad list) state)))) \<le> 100"
proof -
  obtain st :: "(nat, ad list) state" where
    run: "classify demo_U sql_db ''models'' True None demo_ads = Inr st"
    and c: "classifiers st = [''en'' \<mapsto> demo_bundle]"
    by (rule demo_run)
  from demo_payloads [OF run c] obtain p where p: "p \<in> set (payloads (trace st))"
    by (cases "payloads (trace st)") auto
  have e: "updates (init demo_ads :: (nat, ad list) state) = []" by (simp add: init_def)
  note b = buffer_bounded [of demo_U sql_db "''models''" True None demo_ads
      "init demo_ads :: (nat, ad list) state" "map Ad demo_ads"]
  from b run have 1: "length (updates st) \<le> 100" by simp
  from b run p have 2: "1 \<le> length p \<and> length p \<le> 100" by simp
  from b e have 3: "length (updates (final (loop demo_U sql_db (take 150 (map Ad demo_ads))
                 (init demo_ads :: (nat, ad list) state)))) \<le> 100" by blast
  from run 1 p 2 e 3 show ?thesis by blast
qed

section \<open>A bulk write that raises\<close>

lemma committed_split:
  assumes "committed DB s (earlier @ Bulk_query q us # later)"
  shows "\<exists>s'. bulk_query DB q us (replay DB s earlier) = Inr s'"
  using assms by (auto simp: committed_append split: sum.splits)

text \<open>
  C7. When a bulk write of a run raises, that write is the last event of the run: no
  record is scored and nothing is written after it, the write is not tried again, and the
  run ends with the exception of the write. The contents of the database are then the
  ones after the earlier writes, which all succeeded. The write that raises is found in
  the trace as a bulk write that fails on the contents left by the events before it.
\<close>

theorem write_failure_aborts:
  assumes tr: "trace (final (classify U DB base newest lang_opt s))
                 = earlier @ Bulk_query q us # later"
    and fails: "bulk_query DB q us (replay DB s earlier) = Inl e"
  shows "later = []
         \<and> classify U DB base newest lang_opt s
             = Inl (e, final (classify U DB base newest lang_opt s))
         \<and> store (final (classify U DB base newest lang_opt s)) = replay DB s earlier
         \<and> committed DB s earlier"
proof -
  let ?out = "classify U DB base newest lang_opt s"
  let ?T = "trace (final ?out)"
  obtain pre evs where
    t: "?T = pre @ evs" and q: "payloads pre = []"
    and st: "store (final ?out) = replay DB s evs" and ok: "outcome_ok DB s ?out evs"
    by (rule classify_any [of U DB base newest lang_opt s])
  have sT: "store (final ?out) = replay DB s ?T"
    using st t q by (simp add: replay_append replay_quiet)
  have okT: "outcome_ok DB s ?out ?T"
    using outcome_ok_quiet [OF ok q] t by simp
  have nc: "\<not> committed DB s ?T"
    using committed_split [of DB s earlier q us later] fails tr by auto
  from okT nc obtain e' st' where out: "?out = Inl (e', st')" and wf: "write_failed DB s e' ?T"
    by (cases ?out) (auto simp: outcome_ok_def)
  from wf obtain p q' us' where
    p: "?T = p @ [Bulk_query q' us']" "committed DB s p"
       "bulk_query DB q' us' (replay DB s p) = Inl e'"
    unfolding write_failed_def by blast
  have l: "later = []"
  proof (rule ccontr)
    assume "later \<noteq> []"
    then obtain l' x where "later = l' @ [x]" by (metis rev_exhaust)
    with tr p(1) have "p = earlier @ Bulk_query q us # l'" by simp
    with p(2) committed_split [of DB s earlier q us l'] fails show False by auto
  qed
  with tr p(1) have same: "p = earlier" "q' = q" "us' = us" by simp_all
  with p(3) fails have e: "e' = e" by simp
  have "replay DB s ?T = replay DB s earlier"
    using tr l fails by (simp add: replay_append)
  with sT have s: "store (final ?out) = replay DB s earlier" by simp
  from out e have "?out = Inl (e, final ?out)" by simp
  with l s p(2) same(1) show ?thesis by simp
qed

lemma flaky_fails:
  "k \<le> snd s \<Longrightarrow> bulk_query (flaky_db k) q us s = Inl (Failure ''connection lost'')"
  by (cases s) (simp add: flaky_db_def)

lemma lost_run_trace:
  "(let T = trace (final lost_run); s = replay (flaky_db 1) (many_ads, 0) (butlast T) in
      T \<noteq> [] \<and> last T = Bulk_query update_query [\<lparr>upd_id = 100, probability = 3 / 4\<rparr>]
      \<and> length (payloads (butlast T)) = 1
      \<and> snd s = 1
      \<and> political_probability (fst s ! 0) = 3 / 4
      \<and> political_probability (fst s ! 100) = 0)"
  by code_simp

text \<open>
  With 101 English records and a connection lost after one bulk write, the first write,
  of 100 updates, succeeds and the write at the end of the stream, the second, raises.
  It is the last event, the run ends with its exception, and the table is the one the
  first write left: the first row has its probability, the last row is still unscored.
\<close>

theorem write_failure_aborts_witness:
  "trace (final lost_run)
     = butlast (trace (final lost_run))
       @ Bulk_query update_query [\<lparr>upd_id = 100, probability = 3 / 4\<rparr>] # []
   \<and> length (payloads (butlast (trace (final lost_run)))) = 1
   \<and> bulk_query (flaky_db 1) update_query [\<lparr>upd_id = 100, probability = 3 / 4\<rparr>]
        (replay (flaky_db 1) (many_ads, 0) (butlast (trace (final lost_run))))
       = Inl (Failure ''connection lost'')
   \<and> lost_run = Inl (Failure ''connection lost'', final lost_run)
   \<and> snd (store (final lost_run)) = 1
   \<and> political_probability (fst (store (final lost_run)) ! 0) = 3 / 4
   \<and> political_probability (fst (store (final lost_run)) ! 100) = 0"
proof -
  let ?T = "trace (final lost_run)"
  let ?us = "[\<lparr>upd_id = 100, probability = 3 / 4\<rparr>]"
  let ?s = "replay (flaky_db 1) (many_ads, 0) (butlast ?T)"
  from lost_run_trace have
    e: "?T \<noteq> []" "last ?T = Bulk_query update_query ?us"
       "length (payloads (butlast ?T)) = 1" "snd ?s = 1"
       "political_probability (fst ?s ! 0) = 3 / 4" "political_probability (fst ?s ! 100) = 0"
    by (simp_all add: Let_def)
  from e(1,2) have "butlast ?T @ [Bulk_query update_query ?us] = ?T"
    by (metis append_butlast_last_id)
  then have tr: "trace (final (classify demo_U (flaky_db 1) ''models'' True None (many_ads, 0)))
      = butlast ?T @ Bulk_query update_query ?us # []"
    by (simp add: lost_run_def)
  have fails: "bulk_query (flaky_db 1) update_query ?us ?s = Inl (Failure ''connection lost'')"
  proof (rule flaky_fails)
    show "1 \<le> snd ?s" unfolding e(4) by (rule order_refl)
  qed
  from write_failure_aborts [OF tr fails] have
    "lost_run = Inl (Failure ''connection lost'', final lost_run)" "store (final lost_run) = ?s"
    by (simp_all add: lost_run_def)
  with tr e fails show ?thesis by (simp add: lost_run_def)
qed

section \<open>Loading the classifiers\<close>

lemma find_last:
  "find P (xs @ [y]) = (case find P xs of None \<Rightarrow> (if P y then Some y else None) | Some x \<Rightarrow> Some x)"
  by (induction xs) simp_all

lemma find_Some_set: "find P xs = Some x \<Longrightarrow> x \<in> set xs \<and> P x"
  by (induction xs) (auto split: if_splits)

lemma registry_found:
  assumes ok: "\<forall>c \<in> set cs. \<not> bundle_fails U c"
    and f: "find (\<lambda>(directory, conf). conf ''language'' = Some l) (rev cs) = Some (d, conf)"
  shows "\<exists>c v. dill_load U (classifier_path U d) = Inr c \<and> get_vectorizer U conf = Inr v
           \<and> conf ''language'' = Some l \<and> (d, conf) \<in> set cs
           \<and> registry U cs l = Some \<lparr>classifier = c, vectorizer = v\<rparr>"
proof -
  from f have m: "(d, conf) \<in> set cs" and l: "conf ''language'' = Some l"
    by (auto dest: find_Some_set)
  from ok m have "\<not> bundle_fails U (d, conf)" by blast
  then obtain c v where "dill_load U (classifier_path U d) = Inr c" "get_vectorizer U conf = Inr v"
    by (auto simp: bundle_fails_def split: sum.splits)
  with f m l show ?thesis by (simp add: registry_def)
qed

lemma registry_Cons:
  assumes ok: "\<forall>c \<in> set cs. \<not> bundle_fails U c"
    and d: "dill_load U (classifier_path U directory) = Inr c" "get_vectorizer U conf = Inr v"
       "conf ''language'' = Some l"
  shows "registry U ((directory, conf) # cs) = [l \<mapsto> \<lparr>classifier = c, vectorizer = v\<rparr>] ++ registry U cs"
proof
  fix k :: string
  let ?P = "\<lambda>(directory, conf). conf ''language'' = Some k"
  show "registry U ((directory, conf) # cs) k
      = ([l \<mapsto> \<lparr>classifier = c, vectorizer = v\<rparr>] ++ registry U cs) k"
  proof (cases "find ?P (rev cs)")
    case None
    then have "registry U cs k = None" by (simp add: registry_def)
    moreover from None d have "registry U ((directory, conf) # cs) k
        = (if l = k then Some \<lparr>classifier = c, vectorizer = v\<rparr> else None)"
      by (simp add: registry_def find_last)
    ultimately show ?thesis by (simp add: map_add_def)
  next
    case (Some x)
    obtain d' conf' where x: "x = (d', conf')" by (cases x)
    from registry_found [OF ok Some [unfolded x]] obtain c' v' where
      r: "registry U cs k = Some \<lparr>classifier = c', vectorizer = v'\<rparr>"
         "dill_load U (classifier_path U d') = Inr c'" "get_vectorizer U conf' = Inr v'"
      by blast
    from Some x r(2,3) have "registry U ((directory, conf) # cs) k
        = Some \<lparr>classifier = c', vectorizer = v'\<rparr>"
      by (simp add: registry_def find_last)
    with r(1) show ?thesis by (simp add: map_add_def)
  qed
qed

lemma load_classifiers_registry:
  assumes "load_classifiers U cs st = Inr st'"
  shows "classifiers st' = classifiers st ++ registry U cs"
  using assms
proof (induction cs arbitrary: st)
  case Nil
  have "registry U [] = Map.empty" by (rule ext) (simp add: registry_def)
  with Nil show ?case by simp
next
  case (Cons dc cs)
  obtain directory conf where dc: "dc = (directory, conf)" by (cases dc)
  from Cons.prems dc obtain c v l where
    d: "dill_load U (classifier_path U directory) = Inr c" "get_vectorizer U conf = Inr v"
       "conf ''language'' = Some l"
    and l: "load_classifiers U cs
          ((emit (Open_file (classifier_path U directory)) st)
             \<lparr>classifiers := (classifiers st)(l \<mapsto> \<lparr>classifier = c, vectorizer = v\<rparr>)\<rparr>) = Inr st'"
    by (auto simp: Let_def emit_def split: sum.splits option.splits)
  from load_classifiers_Inr_ok [OF l] have ok: "\<forall>c \<in> set cs. \<not> bundle_fails U c" .
  have e: "classifiers ((emit (Open_file (classifier_path U directory)) st)\<lparr>classifiers := m\<rparr>) = m"
    for m by simp
  from Cons.IH [OF l] have "classifiers st'
      = (classifiers st)(l \<mapsto> \<lparr>classifier = c, vectorizer = v\<rparr>) ++ registry U cs"
    unfolding e .
  also have "\<dots> = classifiers st ++ ([l \<mapsto> \<lparr>classifier = c, vectorizer = v\<rparr>] ++ registry U cs)"
    by (rule ext) (simp add: map_add_def split: option.splits)
  also have "\<dots> = classifiers st ++ registry U (dc # cs)"
    unfolding dc registry_Cons [OF ok d] ..
  finally show ?case .
qed

lemma registry_covers:
  assumes ok: "\<forall>c \<in> set cs. \<not> bundle_fails U c" and m: "(directory, conf) \<in> set cs"
  shows "\<exists>l. conf ''language'' = Some l \<and> registry U cs l \<noteq> None"
proof -
  from ok m have "\<not> bundle_fails U (directory, conf)" by blast
  then obtain l where l: "conf ''language'' = Some l"
    by (auto simp: bundle_fails_def split: sum.splits)
  let ?P = "\<lambda>(directory, conf). conf ''language'' = Some l"
  from m l have "find ?P (rev cs) \<noteq> None" by (auto simp: find_None_iff)
  then obtain x where "find ?P (rev cs) = Some x" by blast
  moreover obtain d' conf' where "x = (d', conf')" by (cases x)
  ultimately have "find ?P (rev cs) = Some (d', conf')" by simp
  from registry_found [OF ok this] l show ?thesis by auto
qed

lemma body_classifiers: "classifiers (final (body U DB r st)) = classifiers st"
proof (cases rule: body_cases [where r = r and st = st and U = U and DB = DB])
  case (not_ad n)
  then show ?thesis by (simp add: body_Length)
next
  case (skipped a)
  then show ?thesis by (simp add: body_skip)
next
  case (score_fails a b e)
  then show ?thesis by (simp add: body_score_fails)
next
  case (kept a b u)
  then show ?thesis by (simp add: body_keep)
next
  case (written a b u s)
  then show ?thesis by (simp add: body_write)
next
  case (write_fails a b u e)
  then show ?thesis by (simp add: body_write_fails)
qed

lemma loop_classifiers: "classifiers (final (loop U DB rs st)) = classifiers st"
proof (induction rs arbitrary: st)
  case Nil
  then show ?case by simp
next
  case (Cons r rs)
  show ?case
  proof (cases "body U DB r st")
    case (Inl x)
    with body_classifiers [of U DB r st] show ?thesis by simp
  next
    case (Inr st1)
    with body_classifiers [of U DB r st] Cons.IH [of st1] show ?thesis by simp
  qed
qed

lemma flush_classifiers: "classifiers (final (flush DB st)) = classifiers st"
  by (simp add: flush_def bulk_write_def emit_def Let_def split: sum.splits)

lemma run_queries_Inl_idx:
  assumes "run_queries DB q st = Inl (e, st')"
  shows "idx st' = idx st"
  using assms by (auto simp: run_queries_def Let_def split: sum.splits)

lemma load_classifiers_Inl_idx:
  assumes "load_classifiers U cs st = Inl (e, st')"
  shows "idx st' = idx st"
  using assms
proof (induction cs arbitrary: st)
  case Nil
  then show ?case by simp
next
  case (Cons dc cs)
  obtain directory conf where dc: "dc = (directory, conf)" by (cases dc)
  let ?st = "emit (Open_file (classifier_path U directory)) st"
  from Cons.prems dc consider "st' = ?st"
    | c v l where "load_classifiers U cs
          (?st\<lparr>classifiers := (classifiers st)(l \<mapsto> \<lparr>classifier = c, vectorizer = v\<rparr>)\<rparr>) = Inl (e, st')"
    by (auto simp: Let_def split: sum.splits option.splits)
  then show ?case
  proof cases
    case 1
    then show ?thesis by simp
  next
    case 2
    from Cons.IH [OF 2] show ?thesis by simp
  qed
qed

lemma classify_registry:
  fixes U :: "'f utilities" and DB :: "'s database" and base :: string and newest :: bool
    and lang_opt :: "string option" and s :: 's
  defines "out \<equiv> classify U DB base newest lang_opt s"
  assumes h: "0 < idx (final out) \<or> (\<exists>st. out = Inr st)"
  shows "(\<forall>c \<in> set (confs U base). \<not> bundle_fails U c)
         \<and> classifiers (final out) = registry U (confs U base)"
proof (cases rule: classify_cases [where U = U and DB = DB and base = base and newest = newest
      and lang_opt = lang_opt and s = s])
  case (queries_fail e st')
  note o = queries_fail(2) [folded out_def]
  from run_queries_Inl_idx [OF queries_fail(1)] have "idx st' = 0"
    by (simp add: begin_run_def init_def emit_def)
  with h o show ?thesis by simp
next
  case (load_fails records stq e st')
  note o = load_fails(3) [folded out_def]
  from run_queries_Inr [OF load_fails(1)] have "idx stq = 0"
    by (auto simp: begin_run_def init_def emit_def)
  with load_classifiers_Inl_idx [OF load_fails(2)] have "idx st' = 0" by simp
  with h o show ?thesis by simp
next
  case (loop_fails records stq st1 e st')
  note o = loop_fails(4) [folded out_def]
  from load_classifiers_registry [OF loop_fails(2)]
  have c: "classifiers st1 = registry U (confs U base)" by simp
  from loop_classifiers [of U DB records "start st1"] loop_fails(3)
  have "classifiers st' = classifiers st1" by (simp add: start_def)
  with c o load_classifiers_Inr_ok [OF loop_fails(2)] show ?thesis by simp
next
  case (flushed records stq st1 st2)
  note o = flushed(4) [folded out_def]
  from load_classifiers_registry [OF flushed(2)]
  have c: "classifiers st1 = registry U (confs U base)" by simp
  from loop_classifiers [of U DB records "start st1"] flushed(3)
  have "classifiers st2 = classifiers st1" by (simp add: start_def)
  with c o flush_classifiers [of DB st2] load_classifiers_Inr_ok [OF flushed(2)]
  show ?thesis by simp
qed

text \<open>
  C8. A configured language whose classifier cannot be loaded (the file cannot be opened
  or unpickled, the vectorizer cannot be built, or the configuration names no language)
  ends the run with an exception before any record is processed and before any write:
  the database is as it was, the index is 0 and the trace has no progress line and no
  bulk write. In any run the trace splits in two: a first part with no progress line and
  no bulk write, and a second part in which no file is opened; when the second part is
  not empty, the first part has opened the file of every configured language, in order,
  and none of them failed to load. A run that processed a record, or that ended
  normally, had every configuration loaded: its dictionary of classifiers is the
  complete one, in which every configured language has its classifier and vectorizer.
  And in a run that ended normally there is a progress line for each record of the
  stream whose language is configured.
\<close>

theorem load_failure_aborts:
  "((\<exists>c \<in> set (confs U base). bundle_fails U c) \<longrightarrow>
      (\<exists>e st. classify U DB base newest lang_opt s = Inl (e, st) \<and> store st = s
         \<and> payloads (trace st) = [] \<and> progress (trace st) = [] \<and> idx st = 0))
   \<and> (\<exists>pre evs. trace (final (classify U DB base newest lang_opt s)) = pre @ evs
         \<and> payloads pre = [] \<and> progress pre = [] \<and> opened evs = []
         \<and> (evs = [] \<or>
              (opened pre = map (\<lambda>(directory, conf). classifier_path U directory) (confs U base)
               \<and> (\<forall>c \<in> set (confs U base). \<not> bundle_fails U c))))
   \<and> (0 < idx (final (classify U DB base newest lang_opt s))
          \<or> (\<exists>st. classify U DB base newest lang_opt s = Inr st) \<longrightarrow>
        (\<forall>c \<in> set (confs U base). \<not> bundle_fails U c)
        \<and> classifiers (final (classify U DB base newest lang_opt s)) = registry U (confs U base)
        \<and> (\<forall>(directory, conf) \<in> set (confs U base).
              \<exists>l. conf ''language'' = Some l
                \<and> classifiers (final (classify U DB base newest lang_opt s)) l \<noteq> None))
   \<and> (\<forall>st. classify U DB base newest lang_opt s = Inr st \<longrightarrow>
        (\<exists>records. query DB (select_query newest lang_opt) s = Inr records
           \<and> length (progress (trace st))
               = length (filter (scoreable (registry U (confs U base))) records)))"
proof -
  let ?out = "classify U DB base newest lang_opt s"
  obtain pre evs where
    t: "trace (final ?out) = pre @ evs" and q: "payloads pre = []" "progress pre = []"
    and o: "opened evs = []" and st: "store (final ?out) = replay DB s evs"
    and l: "evs = [] \<or> (opened pre = paths U (confs U base)
        \<and> (\<forall>c \<in> set (confs U base). \<not> bundle_fails U c))"
    and f: "(\<exists>c \<in> set (confs U base). bundle_fails U c) \<longrightarrow> evs = [] \<and> (\<exists>e st. ?out = Inl (e, st))"
    by (rule classify_any [of U DB base newest lang_opt s])
  have 3: "(\<forall>c \<in> set (confs U base). \<not> bundle_fails U c)
        \<and> classifiers (final ?out) = registry U (confs U base)
        \<and> (\<forall>(directory, conf) \<in> set (confs U base).
              \<exists>l. conf ''language'' = Some l \<and> classifiers (final ?out) l \<noteq> None)"
    if h: "0 < idx (final ?out) \<or> (\<exists>st. ?out = Inr st)"
  proof -
    from classify_registry [OF h] have
      ok: "\<forall>c \<in> set (confs U base). \<not> bundle_fails U c"
      and c: "classifiers (final ?out) = registry U (confs U base)"
      by simp_all
    from registry_covers [OF ok] c
    have "\<forall>(directory, conf) \<in> set (confs U base).
              \<exists>l. conf ''language'' = Some l \<and> classifiers (final ?out) l \<noteq> None"
      by auto
    with ok c show ?thesis by blast
  qed
  have 1: "\<exists>e st. ?out = Inl (e, st) \<and> store st = s
         \<and> payloads (trace st) = [] \<and> progress (trace st) = [] \<and> idx st = 0"
    if b: "\<exists>c \<in> set (confs U base). bundle_fails U c"
  proof -
    from b f obtain e st' where e: "evs = []" and out: "?out = Inl (e, st')" by blast
    from out t e q st have "store st' = s" "payloads (trace st') = []" "progress (trace st') = []"
      by simp_all
    moreover have "idx st' = 0"
    proof (rule ccontr)
      assume "idx st' \<noteq> 0"
      with out have "0 < idx (final ?out)" by simp
      with 3 b show False by blast
    qed
    ultimately show ?thesis using out by blast
  qed
  from t q o l have 2: "\<exists>pre evs. trace (final ?out) = pre @ evs
         \<and> payloads pre = [] \<and> progress pre = [] \<and> opened evs = []
         \<and> (evs = [] \<or>
              (opened pre = map (\<lambda>(directory, conf). classifier_path U directory) (confs U base)
               \<and> (\<forall>c \<in> set (confs U base). \<not> bundle_fails U c)))"
    unfolding paths_def by blast
  have 4: "\<exists>records. query DB (select_query newest lang_opt) s = Inr records
           \<and> length (progress (trace st))
               = length (filter (scoreable (registry U (confs U base))) records)"
    if run: "?out = Inr st" for st
  proof -
    from run obtain records evs' where
      r: "query DB (select_query newest lang_opt) s = Inr records"
         "trace st = preamble U base newest lang_opt (length' st) @ evs'"
         "length (progress evs') = length (filter (scoreable (classifiers st)) records)"
      by (rule classify_Inr)
    from run 3 have "classifiers st = registry U (confs U base)" by auto
    with r show ?thesis by (auto simp: progress_append)
  qed
  from 1 2 3 4 show ?thesis by blast
qed

lemma demo_registry: "registry demo_U (confs demo_U ''models'') = [''en'' \<mapsto> demo_bundle]"
  by (rule ext) (simp add: registry_def demo_U_def demo_bundle_def)

text \<open>
  With the German classifier file missing, the run over the 251 records ends with an
  exception, the table as it was, no record processed and nothing written. With English
  alone configured, the run ends normally with the English classifier in its dictionary
  and a progress line for each of the 250 English records.
\<close>

theorem load_failure_aborts_witness:
  "(''models/de'', [''language'' \<mapsto> ''de'']) \<in> set (confs broken_U ''models'')
   \<and> bundle_fails broken_U (''models/de'', [''language'' \<mapsto> ''de''])
   \<and> (\<exists>e (st :: (nat, ad list) state).
         classify broken_U sql_db ''models'' True None demo_ads = Inl (e, st)
         \<and> store st = demo_ads \<and> payloads (trace st) = [] \<and> progress (trace st) = []
         \<and> idx st = 0)
   \<and> (\<exists>st :: (nat, ad list) state.
         classify demo_U sql_db ''models'' True None demo_ads = Inr st
         \<and> classifiers st = [''en'' \<mapsto> demo_bundle]
         \<and> length (progress (trace st)) = 250)"
proof -
  have m: "(''models/de'', [''language'' \<mapsto> ''de'']) \<in> set (confs broken_U ''models'')"
    by (simp add: broken_U_def demo_U_def)
  have b: "bundle_fails broken_U (''models/de'', [''language'' \<mapsto> ''de''])"
    by (simp add: bundle_fails_def broken_U_def demo_U_def)
  from m b have "\<exists>c \<in> set (confs broken_U ''models''). bundle_fails broken_U c" by blast
  with load_failure_aborts [of broken_U "''models''" sql_db True None demo_ads]
  have 1: "\<exists>e (st :: (nat, ad list) state).
         classify broken_U sql_db ''models'' True None demo_ads = Inl (e, st)
         \<and> store st = demo_ads \<and> payloads (trace st) = [] \<and> progress (trace st) = []
         \<and> idx st = 0"
    by blast
  obtain st :: "(nat, ad list) state" where
    run: "classify demo_U sql_db ''models'' True None demo_ads = Inr st"
    by (rule demo_run)
  note w = load_failure_aborts [of demo_U "''models''" sql_db True None demo_ads]
  from w run have c: "classifiers st = [''en'' \<mapsto> demo_bundle]"
    by (simp add: demo_registry)
  from w run demo_stream have "length (progress (trace st))
      = length (filter (scoreable [''en'' \<mapsto> demo_bundle]) (map Ad demo_ads))"
    by (simp add: demo_registry)
  then have "length (progress (trace st)) = 250"
    by (simp add: demo_scoreable length_demo_ids)
  with run c have 2: "\<exists>st :: (nat, ad list) state.
         classify demo_U sql_db ''models'' True None demo_ads = Inr st
         \<and> classifiers st = [''en'' \<mapsto> demo_bundle]
         \<and> length (progress (trace st)) = 250"
    by blast
  from m b 1 2 show ?thesis by blast
qed

section \<open>The count and the stream\<close>




section \<open>The language filter\<close>

text \<open>With no language, \<^verbatim>\<open>newest\<close> selects the unscored rows and \<^verbatim>\<open>every\<close> selects all.\<close>

lemma mode_filter:
  "query sql_db (select_query True None) tbl
     = Inr (map Ad (filter (\<lambda>a. political_probability a = 0) tbl))"
  "query sql_db (select_query False None) tbl = Inr (map Ad tbl)"
  by (simp_all add: sql_db_def sql_query_def count_inner_select select_where_newest
        select_where_every matching_def selects_def [abs_def])

text \<open>
  A language with no quote in it is the value of the literal the statement compares
  \<^verbatim>\<open>lang\<close> with.
\<close>

lemma string_literal_plain:
  "CHR 0x27 \<notin> set l \<Longrightarrow> string_literal (l @ sq) = Some (l, [])"
proof (induction l)
  case Nil
  then show ?case by (simp add: sq_def)
next
  case (Cons c l)
  then show ?case by (cases l) (auto simp: sq_def)
qed

lemma select_where_plain:
  assumes "CHR 0x27 \<notin> set l" and "l \<noteq> []"
  shows "select_where (select_query True (Some l)) = Some [[Unscored, Lang_is l]]"
    and "select_where (select_query False (Some l)) = Some [[Lang_is l]]"
  using assms
  by (simp_all add: select_query_def select_where_def conds.simps [of "CHR ''p'' # _"]
        conds.simps [of "CHR ''l'' # _"] atom_def sq_def and_cond_def
        string_literal_plain [unfolded sq_def])

lemma lang_filter_plain:
  assumes "CHR 0x27 \<notin> set l" and "l \<noteq> []"
  shows "query sql_db (select_query True (Some l)) tbl
           = Inr (map Ad (filter (\<lambda>a. political_probability a = 0 \<and> lang a = l) tbl))"
    and "query sql_db (select_query False (Some l)) tbl
           = Inr (map Ad (filter (\<lambda>a. lang a = l) tbl))"
  using select_where_plain [OF assms]
  by (simp_all add: sql_db_def sql_query_def count_inner_select matching_def
        selects_def [abs_def])

text \<open>
  C3. The language is put between quotes as it is, so a quote in it ends the literal and
  what follows is read as SQL. With \<^verbatim>\<open>--lang "en' and lang = 'en"\<close> and \<^verbatim>\<open>--every\<close> the
  statement is \<^verbatim>\<open>select * from ads where lang = 'en' and lang = 'en'\<close>: the English
  record is fetched and scored, and its language is not the one asked for.
\<close>

theorem lang_filter_not_escaped:
  "select_query False (Some (''en'' @ sq @ '' and lang = '' @ sq @ ''en''))
     = ''select * from ads where lang = 'en' and lang = 'en'' @ sq
   \<and> query sql_db (select_query False (Some (''en'' @ sq @ '' and lang = '' @ sq @ ''en'')))
        [demo_ad ''en'' 1, demo_ad ''de'' 2]
     = Inr [Ad (demo_ad ''en'' 1)]
   \<and> lang (demo_ad ''en'' 1) \<noteq> ''en'' @ sq @ '' and lang = '' @ sq @ ''en''
   \<and> concat (payloads (trace (final (classify demo_U sql_db ''models'' False
        (Some (''en'' @ sq @ '' and lang = '' @ sq @ ''en''))
        [demo_ad ''en'' 1, demo_ad ''de'' 2]))))
     = [\<lparr>upd_id = 1, probability = 3 / 4\<rparr>]"
  by code_simp

section \<open>The table after a run\<close>

lemma apply_update_eq:
  "apply_update u tbl
     = map (\<lambda>a. a\<lparr>political_probability :=
                     if ad_id a = upd_id u then probability u else political_probability a\<rparr>) tbl"
  by (simp add: apply_update_def cong: if_cong)

lemma fold_apply_update:
  "fold apply_update us tbl
     = map (\<lambda>a. a\<lparr>political_probability :=
                     final_probability us (ad_id a) (political_probability a)\<rparr>) tbl"
proof (induction us arbitrary: tbl)
  case Nil
  then show ?case by (simp add: final_probability_def)
next
  case (Cons u us)
  have "fold apply_update (u # us) tbl = fold apply_update us (apply_update u tbl)"
    by simp
  also have "\<dots> = map (\<lambda>a. a\<lparr>political_probability :=
      final_probability us (ad_id a) (political_probability a)\<rparr>) (apply_update u tbl)"
    by (rule Cons.IH)
  also have "\<dots> = map (\<lambda>a. a\<lparr>political_probability :=
      final_probability (u # us) (ad_id a) (political_probability a)\<rparr>) tbl"
    by (simp add: apply_update_eq final_probability_def o_def)
  finally show ?case .
qed

lemma final_probability_other:
  "\<forall>u \<in> set us. upd_id u \<noteq> i \<Longrightarrow> final_probability us i p = p"
  by (induction us arbitrary: p) (simp_all add: final_probability_def)

lemma final_probability_Cons:
  "final_probability (u # us) i p
     = final_probability us i (if upd_id u = i then probability u else p)"
  by (simp add: final_probability_def)

lemma final_probability_of:
  assumes "distinct (map ad_id xs)" and "a \<in> set xs" and "\<forall>x. upd_id (f x) = ad_id x"
  shows "final_probability (map f xs) (ad_id a) p = probability (f a)"
  using assms(1,2)
proof (induction xs arbitrary: p)
  case Nil
  then show ?case by simp
next
  case (Cons x xs)
  show ?case
  proof (cases "x = a")
    case True
    with Cons.prems have n: "ad_id a \<notin> ad_id ` set xs" by simp
    have "\<forall>u \<in> set (map f xs). upd_id u \<noteq> ad_id a"
    proof
      fix u assume "u \<in> set (map f xs)"
      then obtain x where x: "x \<in> set xs" "u = f x" by auto
      then have "ad_id x \<in> ad_id ` set xs" by simp
      with n have "ad_id x \<noteq> ad_id a" by metis
      with x(2) assms(3) show "upd_id u \<noteq> ad_id a" by simp
    qed
    from final_probability_other [OF this] True assms(3) show ?thesis
      by (simp add: final_probability_Cons)
  next
    case False
    with Cons.prems have a: "a \<in> set xs" and d: "distinct (map ad_id xs)"
      and n: "ad_id x \<noteq> ad_id a"
      by auto
    from Cons.IH [OF d a] n assms(3) show ?thesis
      by (simp add: final_probability_Cons)
  qed
qed

text \<open>
  With distinct ids, the updates of some rows of the table change those rows and no
  other.
\<close>

lemma fold_apply_update_rows:
  assumes ids: "distinct (map ad_id tbl)" and f: "\<forall>x. upd_id (f x) = ad_id x"
  shows "fold apply_update (map f (filter Q tbl)) tbl
           = map (\<lambda>a. if Q a then a\<lparr>political_probability := probability (f a)\<rparr> else a) tbl"
proof -
  let ?us = "map f (filter Q tbl)"
  have d: "distinct (map ad_id (filter Q tbl))"
    using ids by (simp add: distinct_map_filter)
  have "a\<lparr>political_probability := final_probability ?us (ad_id a) (political_probability a)\<rparr>
      = (if Q a then a\<lparr>political_probability := probability (f a)\<rparr> else a)"
    if a: "a \<in> set tbl" for a
  proof (cases "Q a")
    case True
    with a have "a \<in> set (filter Q tbl)" by simp
    from final_probability_of [OF d this f] True show ?thesis by simp
  next
    case False
    have "\<forall>u \<in> set ?us. upd_id u \<noteq> ad_id a"
    proof
      fix u assume "u \<in> set ?us"
      then obtain x where x: "x \<in> set tbl" "Q x" "u = f x" by auto
      with False have "x \<noteq> a" by auto
      with ids x(1) a have "ad_id x \<noteq> ad_id a"
        by (auto simp: distinct_map dest: inj_onD)
      with x(3) f show "upd_id u \<noteq> ad_id a" by simp
    qed
    from final_probability_other [OF this] False show ?thesis by simp
  qed
  then show ?thesis
    unfolding fold_apply_update by (intro map_cong) simp_all
qed

lemma fold_apply_update_noop:
  assumes "\<forall>u \<in> set us. \<forall>a \<in> set tbl. ad_id a = upd_id u \<longrightarrow> political_probability a = probability u"
  shows "fold apply_update us tbl = tbl"
  using assms
proof (induction us)
  case Nil
  then show ?case by simp
next
  case (Cons u us)
  have "apply_update u tbl = map (\<lambda>a. a) tbl"
    unfolding apply_update_def using Cons.prems by (intro map_cong) auto
  with Cons show ?case by simp
qed

lemma select_where_newest_unscored:
  assumes cs: "select_where (select_query True lang_opt) = Some cs"
    and plain: "\<forall>l. lang_opt = Some l \<longrightarrow> CHR 0x27 \<notin> set l"
  shows "\<forall>a. selects cs a \<longrightarrow> political_probability a = 0"
proof (cases lang_opt)
  case None
  with cs have "cs = [[Unscored]]" by (simp add: select_where_newest)
  then show ?thesis by (simp add: selects_def)
next
  case (Some l)
  show ?thesis
  proof (cases "l = []")
    case True
    with Some have "select_query True lang_opt = select_query True None"
      by (simp add: select_query_def)
    with cs have "cs = [[Unscored]]" by (simp add: select_where_newest)
    then show ?thesis by (simp add: selects_def)
  next
    case False
    from plain Some have "CHR 0x27 \<notin> set l" by simp
    from select_where_plain(1) [OF this False] cs Some have "cs = [[Unscored, Lang_is l]]"
      by simp
    then show ?thesis by (simp add: selects_def)
  qed
qed

lemma update_for_same:
  "ad_id a' = ad_id a \<Longrightarrow> html a' = html a \<Longrightarrow> lang a' = lang a
     \<Longrightarrow> update_for U cls a' = update_for U cls a"
  by (simp add: update_for_def proba_def)

lemma score_same:
  "ad_id a' = ad_id a \<Longrightarrow> html a' = html a \<Longrightarrow> score U b a' = score U b a"
  by (simp add: score_def split: sum.splits)

lemma no_empty_payload:
  assumes "classify U DB base newest lang_opt s = Inr st"
  shows "[] \<notin> set (payloads (trace st))"
proof -
  obtain pre evs where
    t: "trace (final (classify U DB base newest lang_opt s)) = pre @ evs" "payloads pre = []"
    and p: "\<forall>p \<in> set (payloads evs). 1 \<le> length p \<and> length p \<le> 100"
    by (rule classify_any [of U DB base newest lang_opt s])
  with assms show ?thesis by (auto simp: payloads_append)
qed

section \<open>Records with no classifier\<close>

lemma scoreable_rows_filter:
  "scoreable_rows cls cs tbl = filter (\<lambda>a. selects cs a \<and> cls (lang a) \<noteq> None) tbl"
  by (simp add: scoreable_rows_def matching_def conj_commute)

lemma sql_store_rows:
  fixes U :: "'f utilities" and st :: "('f, ad list) state"
  assumes run: "classify U sql_db base newest lang_opt tbl = Inr st"
    and ids: "distinct (map ad_id tbl)"
  obtains cs where
    "select_where (select_query newest lang_opt) = Some cs"
    "store st = map (\<lambda>a. if selects cs a \<and> classifiers st (lang a) \<noteq> None
                          then a\<lparr>political_probability := probability (update_for U (classifiers st) a)\<rparr>
                          else a) tbl"
    "concat (payloads (trace st))
       = map (update_for U (classifiers st)) (scoreable_rows (classifiers st) cs tbl)"
    "\<forall>a \<in> set (scoreable_rows (classifiers st) cs tbl).
       score U (the (classifiers st (lang a))) a = Inr (update_for U (classifiers st) a)"
proof -
  from run obtain cs evs where
    f: "select_where (select_query newest lang_opt) = Some cs"
       "trace st = preamble U base newest lang_opt (length' st) @ evs"
       "concat (payloads evs) = map (update_for U (classifiers st)) (scoreable_rows (classifiers st) cs tbl)"
       "\<forall>a \<in> set (scoreable_rows (classifiers st) cs tbl).
          score U (the (classifiers st (lang a))) a = Inr (update_for U (classifiers st) a)"
       "store st = fold apply_update (concat (payloads evs)) tbl"
    by (rule sql_run)
  have u: "\<forall>x. upd_id (update_for U (classifiers st) x) = ad_id x"
    by (simp add: update_for_def)
  have s: "store st = map (\<lambda>a. if selects cs a \<and> classifiers st (lang a) \<noteq> None
                          then a\<lparr>political_probability := probability (update_for U (classifiers st) a)\<rparr>
                          else a) tbl"
    unfolding f(5) f(3) scoreable_rows_filter by (rule fold_apply_update_rows [OF ids u])
  have p: "concat (payloads (trace st))
       = map (update_for U (classifiers st)) (scoreable_rows (classifiers st) cs tbl)"
    using f(2,3) by (simp add: payloads_append)
  from f(1) s p f(4) show ?thesis by (rule that)
qed

text \<open>
  C2. A record whose language has no classifier adds one to the index and does nothing
  else: it is no exception, and the buffer, the trace (so no progress line and no write)
  and the database are as before. In a run on \<open>sql_db\<close> that ends normally, over a table
  with distinct ids: the index counts every record of the stream, there is a progress
  line for each scoreable record only, every update is for the id of a row whose language
  has a classifier, and each row whose language has none is in the table after the run as
  it was before.
\<close>

theorem skip_semantics:
  "(classifiers st0 (lang a) = None \<longrightarrow>
      body U DB (Ad a) st0 = Inr (st0\<lparr>idx := idx st0 + 1\<rparr>))
   \<and> (classify U sql_db base newest lang_opt tbl = Inr st \<and> distinct (map ad_id tbl) \<longrightarrow>
        (\<exists>records. query sql_db (select_query newest lang_opt) tbl = Inr records
           \<and> idx st = length records
           \<and> length (progress (trace st)) = length (filter (scoreable (classifiers st)) records))
        \<and> (\<forall>u \<in> set (concat (payloads (trace st))).
              \<exists>a' \<in> set tbl. upd_id u = ad_id a' \<and> classifiers st (lang a') \<noteq> None)
        \<and> length (store st) = length tbl
        \<and> (\<forall>i < length tbl. classifiers st (lang (tbl ! i)) = None \<longrightarrow> store st ! i = tbl ! i))"
proof -
  have 1: "body U DB (Ad a) st0 = Inr (st0\<lparr>idx := idx st0 + 1\<rparr>)"
    if "classifiers st0 (lang a) = None"
    using that by (rule body_skip)
  have 2: "(\<exists>records. query sql_db (select_query newest lang_opt) tbl = Inr records
           \<and> idx st = length records
           \<and> length (progress (trace st)) = length (filter (scoreable (classifiers st)) records))
        \<and> (\<forall>u \<in> set (concat (payloads (trace st))).
              \<exists>a' \<in> set tbl. upd_id u = ad_id a' \<and> classifiers st (lang a') \<noteq> None)
        \<and> length (store st) = length tbl
        \<and> (\<forall>i < length tbl. classifiers st (lang (tbl ! i)) = None \<longrightarrow> store st ! i = tbl ! i)"
    if run: "classify U sql_db base newest lang_opt tbl = Inr st" and ids: "distinct (map ad_id tbl)"
  proof -
    let ?cls = "classifiers st"
    from run obtain cs evs where
      f: "query sql_db (select_query newest lang_opt) tbl = Inr (map Ad (matching cs tbl))"
         "idx st = length (matching cs tbl)"
         "trace st = preamble U base newest lang_opt (length' st) @ evs"
         "length (progress evs) = length (scoreable_rows ?cls cs tbl)"
      by (rule sql_run)
    have "length (progress (trace st))
        = length (filter (scoreable ?cls) (map Ad (matching cs tbl)))"
      using f(3,4) by (simp add: progress_append scoreable_rows_def scoreable_def filter_map o_def)
    with f(1,2) have a: "\<exists>records. query sql_db (select_query newest lang_opt) tbl = Inr records
           \<and> idx st = length records
           \<and> length (progress (trace st)) = length (filter (scoreable ?cls) records)"
      by (intro exI [of _ "map Ad (matching cs tbl)"]) simp
    from run ids obtain cs' where
      s: "store st = map (\<lambda>a. if selects cs' a \<and> ?cls (lang a) \<noteq> None
                          then a\<lparr>political_probability := probability (update_for U ?cls a)\<rparr>
                          else a) tbl"
      and p: "concat (payloads (trace st)) = map (update_for U ?cls) (scoreable_rows ?cls cs' tbl)"
      by (rule sql_store_rows)
    have b: "\<forall>u \<in> set (concat (payloads (trace st))).
        \<exists>a' \<in> set tbl. upd_id u = ad_id a' \<and> ?cls (lang a') \<noteq> None"
      unfolding p by (auto simp: scoreable_rows_filter update_for_def)
    have c: "length (store st) = length tbl" by (subst s) simp
    have d: "\<forall>i < length tbl. ?cls (lang (tbl ! i)) = None \<longrightarrow> store st ! i = tbl ! i"
      by (subst s) simp
    from a b c d show ?thesis by blast
  qed
  from 1 2 show ?thesis by blast
qed

lemma demo_ids_distinct: "distinct (map ad_id demo_ads)"
proof -
  have "map ad_id demo_ads = demo_ids @ [250]"
    by (simp add: demo_ads_def demo_ad_def o_def)
  moreover have "distinct (demo_ids @ [250])"
    unfolding demo_ids_def by (simp only: distinct_append distinct_upt set_upt) simp
  ultimately show ?thesis by simp
qed

text \<open>
  In the example the record in the language \<^verbatim>\<open>xx\<close>, the last row of the table, is counted
  (the index ends at 251, with 250 progress lines) and is in the table after the run as
  it was.
\<close>

theorem skip_semantics_witness:
  "\<exists>st :: (nat, ad list) state. classify demo_U sql_db ''models'' True None demo_ads = Inr st
      \<and> distinct (map ad_id demo_ads)
      \<and> classifiers st (lang (demo_ad ''xx'' 250)) = None
      \<and> body demo_U sql_db (Ad (demo_ad ''xx'' 250)) st = Inr (st\<lparr>idx := idx st + 1\<rparr>)
      \<and> idx st = 251 \<and> length (progress (trace st)) = 250
      \<and> store st ! 250 = demo_ad ''xx'' 250"
proof -
  obtain st :: "(nat, ad list) state" where
    run: "classify demo_U sql_db ''models'' True None demo_ads = Inr st"
    and c: "classifiers st = [''en'' \<mapsto> demo_bundle]"
    by (rule demo_run)
  have n: "classifiers st (lang (demo_ad ''xx'' 250)) = None"
    by (simp add: c demo_ad_def)
  have l: "length demo_ads = 251" "demo_ads ! 250 = demo_ad ''xx'' 250"
    by (simp_all add: demo_ads_def length_demo_ids nth_append)
  note s = skip_semantics [of st "demo_ad ''xx'' 250" demo_U sql_db "''models''" True None
      demo_ads st]
  from s n have 1: "body demo_U sql_db (Ad (demo_ad ''xx'' 250)) st = Inr (st\<lparr>idx := idx st + 1\<rparr>)"
    by blast
  from s run demo_ids_distinct have
    2: "\<exists>records. query sql_db (select_query True None) demo_ads = Inr records
           \<and> idx st = length records
           \<and> length (progress (trace st)) = length (filter (scoreable (classifiers st)) records)"
    and 3: "\<forall>i < length demo_ads. classifiers st (lang (demo_ads ! i)) = None
           \<longrightarrow> store st ! i = demo_ads ! i"
    by blast+
  from 2 demo_stream have "idx st = 251" "length (progress (trace st)) = 250"
    by (auto simp: l c demo_scoreable length_demo_ids)
  moreover have "store st ! 250 = demo_ad ''xx'' 250"
  proof -
    have "250 < length demo_ads" by (simp add: l(1))
    with 3 have "classifiers st (lang (demo_ads ! 250)) = None
        \<longrightarrow> store st ! 250 = demo_ads ! 250"
      by blast
    with n l(2) show ?thesis by simp
  qed
  ultimately show ?thesis using run demo_ids_distinct n 1 by blast
qed

section \<open>Running twice\<close>

text \<open>
  When the statement selects unscored rows only, the rows a second run selects and can
  score are rows the first run gave the probability 0.
\<close>

lemma rescored_rows:
  fixes cls :: "string \<rightharpoonup> 'f classifier_bundle"
  assumes u: "\<forall>a. selects cs a \<longrightarrow> political_probability a = 0"
    and a: "a \<in> set tbl"
    and g: "g = (\<lambda>a. if selects cs a \<and> cls (lang a) \<noteq> None
                      then a\<lparr>political_probability := probability (update_for U cls a)\<rparr>
                      else a)"
    and sel: "selects cs (g a)" and c: "cls (lang a) \<noteq> None"
  shows "(selects cs a \<and> cls (lang a) \<noteq> None)
         \<and> probability (update_for U cls a) = 0
         \<and> political_probability (g a) = 0"
proof (cases "selects cs a \<and> cls (lang a) \<noteq> None")
  case True
  then have "g a = a\<lparr>political_probability := probability (update_for U cls a)\<rparr>"
    by (simp add: g)
  moreover from sel u have "political_probability (g a) = 0" by blast
  ultimately show ?thesis using True by simp
next
  case False
  then have "g a = a" unfolding g by auto
  with sel c False show ?thesis by simp
qed

text \<open>
  With no language, or a language with no quote in it, the statement of \<^verbatim>\<open>newest\<close> mode
  selects unscored rows only. Then, on \<open>sql_db\<close> over a table with distinct ids: after a
  run that ended normally, a second run with the same options ends normally too and
  leaves the table as the first run left it; and when no probability the first run wrote
  is 0, the second run writes nothing and prints no progress line.
\<close>

lemma newest_idempotent_plain:
  fixes U :: "'f utilities" and st :: "('f, ad list) state"
  assumes run: "classify U sql_db base True lang_opt tbl = Inr st"
    and ids: "distinct (map ad_id tbl)"
    and plain: "\<forall>l. lang_opt = Some l \<longrightarrow> CHR 0x27 \<notin> set l"
  shows "\<exists>st' :: ('f, ad list) state.
           classify U sql_db base True lang_opt (store st) = Inr st'
           \<and> store st' = store st
           \<and> ((\<forall>u \<in> set (concat (payloads (trace st))). probability u \<noteq> 0)
                \<longrightarrow> payloads (trace st') = [] \<and> progress (trace st') = [])"
proof -
  let ?q = "select_query True lang_opt"
  let ?cls = "classifiers st"
  from run ids obtain cs where
    cs: "select_where ?q = Some cs"
    and s: "store st = map (\<lambda>a. if selects cs a \<and> ?cls (lang a) \<noteq> None
                          then a\<lparr>political_probability := probability (update_for U ?cls a)\<rparr>
                          else a) tbl"
    and p: "concat (payloads (trace st)) = map (update_for U ?cls) (scoreable_rows ?cls cs tbl)"
    and sc: "\<forall>a \<in> set (scoreable_rows ?cls cs tbl).
       score U (the (?cls (lang a))) a = Inr (update_for U ?cls a)"
    by (rule sql_store_rows)
  define g where "g = (\<lambda>a. if selects cs a \<and> ?cls (lang a) \<noteq> None
                      then a\<lparr>political_probability := probability (update_for U ?cls a)\<rparr>
                      else a)"
  have s': "store st = map g tbl" using s by (simp add: g_def)
  have g_same: "ad_id (g a) = ad_id a" "html (g a) = html a" "lang (g a) = lang a" for a
    by (simp_all add: g_def)
  from cs plain have un: "\<forall>a. selects cs a \<longrightarrow> political_probability a = 0"
    by (rule select_where_newest_unscored)
  have ids': "distinct (map ad_id (store st))"
    using ids by (simp add: s' o_def g_same)
  \<comment> \<open>the rows the second run selects and can score\<close>
  have again: "(selects cs a \<and> ?cls (lang a) \<noteq> None)
         \<and> probability (update_for U ?cls a) = 0 \<and> political_probability (g a) = 0"
    if "a \<in> set tbl" "selects cs (g a)" "?cls (lang a) \<noteq> None" for a
    using rescored_rows [OF un that(1) g_def that(2,3)] .
  have rows2: "\<exists>a \<in> set tbl. a2 = g a \<and> selects cs (g a) \<and> ?cls (lang a) \<noteq> None"
    if "a2 \<in> set (scoreable_rows ?cls cs (store st))" for a2
    using that by (auto simp: scoreable_rows_filter s' g_same)
  \<comment> \<open>the second run ends normally\<close>
  from run obtain sta stb :: "('f, ad list) state" where
    ld: "load_classifiers U (confs U base) sta = Inr stb" "classifiers sta = Map.empty"
        "classifiers stb = ?cls"
    by (rule classify_Inr)
  have cq: "query sql_db (count_query ?q) (store st) = Inr [Length (length (matching cs (store st)))]"
    using cs by (simp add: sql_db_def sql_query_def count_inner_count)
  have fl: "first_length [Length (length (matching cs (store st)))]
      = Inr (length (matching cs (store st)))"
    by (simp add: first_length_def item_def)
  have sel: "query sql_db ?q (store st) = Inr (map Ad (matching cs (store st)))"
    using cs by (simp add: sql_db_def sql_query_def count_inner_select)
  have ok: "\<forall>r \<in> set (map Ad (matching cs (store st))). \<exists>a. r = Ad a
      \<and> (\<forall>b. classifiers stb (lang a) = Some b \<longrightarrow> (\<exists>u. score U b a = Inr u))"
  proof
    fix r assume "r \<in> set (map Ad (matching cs (store st)))"
    then obtain a2 where a2: "r = Ad a2" "a2 \<in> set (matching cs (store st))" by auto
    have "\<exists>u. score U b a2 = Inr u" if b: "classifiers stb (lang a2) = Some b" for b
    proof -
      from a2(2) b ld(3) have "a2 \<in> set (scoreable_rows ?cls cs (store st))"
        by (simp add: scoreable_rows_def)
      from rows2 [OF this] obtain a where
        a: "a \<in> set tbl" "a2 = g a" "selects cs (g a)" "?cls (lang a) \<noteq> None"
        by blast
      from again [OF a(1,3,4)] a(1) have "a \<in> set (scoreable_rows ?cls cs tbl)"
        by (simp add: scoreable_rows_filter)
      with sc have "score U (the (?cls (lang a))) a = Inr (update_for U ?cls a)" by blast
      moreover from b ld(3) a(2) have "the (?cls (lang a)) = b" by (simp add: g_same)
      moreover have "score U b a2 = score U b a"
        unfolding a(2) by (rule score_same) (simp_all add: g_same)
      ultimately show ?thesis by simp
    qed
    with a2(1) show "\<exists>a. r = Ad a
      \<and> (\<forall>b. classifiers stb (lang a) = Some b \<longrightarrow> (\<exists>u. score U b a = Inr u))"
      by blast
  qed
  from classify_succeeds [OF cq fl sel ld(1,2) ok sql_bulk_succeeds]
  obtain st' :: "('f, ad list) state" where
    run': "classify U sql_db base True lang_opt (store st) = Inr st'" ..
  from classify_classifiers [OF run' ld(1,2)] ld(3) have cls': "classifiers st' = ?cls" by simp
  \<comment> \<open>what the second run writes\<close>
  from run' obtain cs' evs' where
    f: "select_where ?q = Some cs'"
       "trace st' = preamble U base True lang_opt (length' st') @ evs'"
       "concat (payloads evs') = map (update_for U (classifiers st'))
          (scoreable_rows (classifiers st') cs' (store st))"
       "store st' = fold apply_update (concat (payloads evs')) (store st)"
       "length (progress evs') = length (scoreable_rows (classifiers st') cs' (store st))"
    by (rule sql_run)
  from f(1) cs have "cs' = cs" by simp
  note f = f [unfolded this cls']
  have noop: "\<forall>u \<in> set (concat (payloads evs')). \<forall>a' \<in> set (store st).
      ad_id a' = upd_id u \<longrightarrow> political_probability a' = probability u"
  proof (intro ballI impI)
    fix u a' assume u: "u \<in> set (concat (payloads evs'))" and a': "a' \<in> set (store st)"
      and i: "ad_id a' = upd_id u"
    from u f(3) obtain a2 where
      a2: "a2 \<in> set (scoreable_rows ?cls cs (store st))" "u = update_for U ?cls a2"
      by auto
    from rows2 [OF a2(1)] obtain a where
      a: "a \<in> set tbl" "a2 = g a" "selects cs (g a)" "?cls (lang a) \<noteq> None"
      by blast
    note z = again [OF a(1,3,4)]
    have "a2 \<in> set (store st)" using a(1,2) by (simp add: s')
    moreover have "ad_id a' = ad_id a2" using i a2(2) by (simp add: update_for_def)
    ultimately have "a' = a2"
      using ids' a' by (auto simp: distinct_map dest: inj_onD)
    moreover have "update_for U ?cls a2 = update_for U ?cls a"
      unfolding a(2) by (rule update_for_same) (simp_all add: g_same)
    ultimately show "political_probability a' = probability u"
      using z a(2) a2(2) by simp
  qed
  from fold_apply_update_noop [OF noop] f(4) have same: "store st' = store st" by simp
  have none: "payloads (trace st') = [] \<and> progress (trace st') = []"
    if nz: "\<forall>u \<in> set (concat (payloads (trace st))). probability u \<noteq> 0"
  proof -
    have "scoreable_rows ?cls cs (store st) = []"
    proof (rule ccontr)
      assume "scoreable_rows ?cls cs (store st) \<noteq> []"
      then obtain a2 where "a2 \<in> set (scoreable_rows ?cls cs (store st))"
        by (cases "scoreable_rows ?cls cs (store st)") auto
      from rows2 [OF this] obtain a where
        a: "a \<in> set tbl" "selects cs (g a)" "?cls (lang a) \<noteq> None"
        by blast
      note z = again [OF a]
      with a(1) have "a \<in> set (scoreable_rows ?cls cs tbl)"
        by (simp add: scoreable_rows_filter)
      with p have "update_for U ?cls a \<in> set (concat (payloads (trace st)))" by simp
      with nz z show False by blast
    qed
    with f(3,5) have e: "concat (payloads evs') = []" "progress evs' = []" by simp_all
    from f(2) have pt: "payloads (trace st') = payloads evs'" "progress (trace st') = progress evs'"
      by (simp_all add: payloads_append progress_append)
    from no_empty_payload [OF run'] pt(1) have "[] \<notin> set (payloads evs')" by simp
    with e(1) have "payloads evs' = []" by (cases "payloads evs'") auto
    with e(2) pt show ?thesis by simp
  qed
  from run' same none show ?thesis by blast
qed

lemma demo_nonzero:
  fixes st :: "(nat, ad list) state"
  assumes run: "classify demo_U sql_db ''models'' True None demo_ads = Inr st"
    and c: "classifiers st = [''en'' \<mapsto> demo_bundle]"
  shows "\<forall>u \<in> set (concat (payloads (trace st))). probability u = 3 / 4"
proof -
  from run demo_ids_distinct obtain cs where
    p: "concat (payloads (trace st))
       = map (update_for demo_U (classifiers st)) (scoreable_rows (classifiers st) cs demo_ads)"
    by (rule sql_store_rows)
  have "probability (update_for demo_U (classifiers st) a) = 3 / 4"
    if "classifiers st (lang a) \<noteq> None" for a
    using that by (auto simp: c update_for_def proba_def demo_bundle_def split: if_splits)
  then show ?thesis
    unfolding p by (auto simp: scoreable_rows_def)
qed

text \<open>
  In the example every probability written is \<open>3 / 4\<close>; the second run ends normally,
  leaves the table as it is and scores nothing.
\<close>

lemma newest_idempotent_example:
  "\<exists>(st :: (nat, ad list) state) (st' :: (nat, ad list) state).
      classify demo_U sql_db ''models'' True None demo_ads = Inr st
      \<and> distinct (map ad_id demo_ads)
      \<and> (\<forall>u \<in> set (concat (payloads (trace st))). probability u \<noteq> 0)
      \<and> classify demo_U sql_db ''models'' True None (store st) = Inr st'
      \<and> store st' = store st \<and> payloads (trace st') = [] \<and> progress (trace st') = []"
proof -
  obtain st :: "(nat, ad list) state" where
    run: "classify demo_U sql_db ''models'' True None demo_ads = Inr st"
    and c: "classifiers st = [''en'' \<mapsto> demo_bundle]"
    by (rule demo_run)
  have nz: "\<forall>u \<in> set (concat (payloads (trace st))). probability u \<noteq> 0"
  proof
    fix u assume "u \<in> set (concat (payloads (trace st)))"
    with demo_nonzero [OF run c] have "probability u = 3 / 4" by blast
    then show "probability u \<noteq> 0" by simp
  qed
  have "\<forall>l. (None :: string option) = Some l \<longrightarrow> CHR 0x27 \<notin> set l" by simp
  from newest_idempotent_plain [OF run demo_ids_distinct this] nz
  obtain st' :: "(nat, ad list) state" where
    "classify demo_U sql_db ''models'' True None (store st) = Inr st'"
    "store st' = store st" "payloads (trace st') = []" "progress (trace st') = []"
    by blast
  with run demo_ids_distinct nz show ?thesis by blast
qed

text \<open>
  C5. A quote in the language ends the literal here too. With
  \<^verbatim>\<open>--lang "en' or lang = 'en"\<close> the statement of \<^verbatim>\<open>newest\<close> mode is
  \<^verbatim>\<open>select * from ads where political_probability = 0 and lang = 'en' or lang = 'en'\<close>,
  which selects every English row, scored or not. On a table with one unscored English
  ad the first run ends normally and writes the probability \<open>3 / 4\<close>; the second run ends
  normally, leaves the table as it is, and scores that ad again: it has one progress
  line and one bulk write, for a row whose probability is not 0.
\<close>

theorem second_run_rescores:
  "select_query True (Some (''en'' @ sq @ '' or lang = '' @ sq @ ''en''))
     = ''select * from ads where political_probability = 0 and lang = 'en' or lang = 'en'' @ sq
   \<and> \<not> isl (classify demo_U sql_db ''models'' True
          (Some (''en'' @ sq @ '' or lang = '' @ sq @ ''en'')) [demo_ad ''en'' 1])
   \<and> store (final (classify demo_U sql_db ''models'' True
          (Some (''en'' @ sq @ '' or lang = '' @ sq @ ''en'')) [demo_ad ''en'' 1]))
     = [(demo_ad ''en'' 1)\<lparr>political_probability := 3 / 4\<rparr>]
   \<and> \<not> isl (classify demo_U sql_db ''models'' True
          (Some (''en'' @ sq @ '' or lang = '' @ sq @ ''en''))
          [(demo_ad ''en'' 1)\<lparr>political_probability := 3 / 4\<rparr>])
   \<and> store (final (classify demo_U sql_db ''models'' True
          (Some (''en'' @ sq @ '' or lang = '' @ sq @ ''en''))
          [(demo_ad ''en'' 1)\<lparr>political_probability := 3 / 4\<rparr>]))
     = [(demo_ad ''en'' 1)\<lparr>political_probability := 3 / 4\<rparr>]
   \<and> payloads (trace (final (classify demo_U sql_db ''models'' True
          (Some (''en'' @ sq @ '' or lang = '' @ sq @ ''en''))
          [(demo_ad ''en'' 1)\<lparr>political_probability := 3 / 4\<rparr>])))
     = [[\<lparr>upd_id = 1, probability = 3 / 4\<rparr>]]
   \<and> progress (trace (final (classify demo_U sql_db ''models'' True
          (Some (''en'' @ sq @ '' or lang = '' @ sq @ ''en''))
          [(demo_ad ''en'' 1)\<lparr>political_probability := 3 / 4\<rparr>])))
     = [(1, 1, 1, 3 / 4)]"
  by code_simp

section \<open>The language option\<close>

text \<open>
  C10. An empty \<^verbatim>\<open>--lang\<close> is the same as no \<^verbatim>\<open>--lang\<close>: the statement of a run with the
  empty string is the statement of a run with no language, and so is the whole run. In
  both modes the language condition is appended exactly when the string is not empty, and
  the statement of a run with no language has no language condition.
\<close>

theorem empty_lang_is_no_lang:
  "select_query newest (Some []) = select_query newest None
   \<and> classify U DB base newest (Some []) s = classify U DB base newest None s
   \<and> select_query True None = ''select * from ads where political_probability = 0''
   \<and> select_query False None = ''select * from ads''
   \<and> select_query True (Some l)
       = ''select * from ads where political_probability = 0''
         @ (if l = [] then [] else '' and lang = '' @ sq @ l @ sq)
   \<and> select_query False (Some l)
       = ''select * from ads'' @ (if l = [] then [] else '' where lang = '' @ sq @ l @ sq)"
  by (simp add: select_query_def classify_def)

end
